theory Spec2Isabelle
  imports Main "HOL-Library.Sublist"
begin

section \<open>Strings\<close>

text \<open>
  The classifier of \<^verbatim>\<open>src/media/categorise.py\<close> works on Python \<^verbatim>\<open>str\<close> values.
  A filename is modelled as a \<^typ>\<open>string\<close>, each \<^typ>\<open>char\<close> standing for the code
  point of the same number (0 to 255), so \<^const>\<open>length\<close> counts what \<^verbatim>\<open>len\<close> counts.
  The character tests below are the ones of Python on that range.
\<close>

definition newline :: char where
  "newline = CHR 0x0A"

definition isspace_chr :: "char \<Rightarrow> bool" where
  \<comment> \<open>\<^verbatim>\<open>str.isspace\<close> on one code point below 256\<close>
  "isspace_chr c = (c \<in> set [CHR 0x09, CHR 0x0A, CHR 0x0B, CHR 0x0C, CHR 0x0D,
                               CHR 0x1C, CHR 0x1D, CHR 0x1E, CHR 0x1F, CHR 0x20,
                               CHR 0x85, CHR 0xA0])"

definition isdigit_chr :: "char \<Rightarrow> bool" where
  \<comment> \<open>what \<^verbatim>\<open>\d\<close> matches in a \<^verbatim>\<open>str\<close> pattern: the decimal digits\<close>
  "isdigit_chr c = (c \<in> set ''0123456789'')"

definition isnumeric_chr :: "char \<Rightarrow> bool" where
  \<comment> \<open>\<^verbatim>\<open>str.isnumeric\<close> on one code point below 256: digits, superscripts, fractions\<close>
  "isnumeric_chr c = (c \<in> set (''0123456789'' @
                                 [CHR 0xB2, CHR 0xB3, CHR 0xB9, CHR 0xBC, CHR 0xBD, CHR 0xBE]))"

definition isnumeric :: "string \<Rightarrow> bool" where
  \<comment> \<open>\<^verbatim>\<open>str.isnumeric\<close>: false on the empty string\<close>
  "isnumeric s = (s \<noteq> [] \<and> list_all isnumeric_chr s)"

definition upper_table :: "(char \<times> char) list" where
  "upper_table =
     zip ''ABCDEFGHIJKLMNOPQRSTUVWXYZ'' ''abcdefghijklmnopqrstuvwxyz'' @
     zip [CHR 0xC0, CHR 0xC1, CHR 0xC2, CHR 0xC3, CHR 0xC4, CHR 0xC5, CHR 0xC6, CHR 0xC7,
          CHR 0xC8, CHR 0xC9, CHR 0xCA, CHR 0xCB, CHR 0xCC, CHR 0xCD, CHR 0xCE, CHR 0xCF,
          CHR 0xD0, CHR 0xD1, CHR 0xD2, CHR 0xD3, CHR 0xD4, CHR 0xD5, CHR 0xD6,
          CHR 0xD8, CHR 0xD9, CHR 0xDA, CHR 0xDB, CHR 0xDC, CHR 0xDD, CHR 0xDE]
         [CHR 0xE0, CHR 0xE1, CHR 0xE2, CHR 0xE3, CHR 0xE4, CHR 0xE5, CHR 0xE6, CHR 0xE7,
          CHR 0xE8, CHR 0xE9, CHR 0xEA, CHR 0xEB, CHR 0xEC, CHR 0xED, CHR 0xEE, CHR 0xEF,
          CHR 0xF0, CHR 0xF1, CHR 0xF2, CHR 0xF3, CHR 0xF4, CHR 0xF5, CHR 0xF6,
          CHR 0xF8, CHR 0xF9, CHR 0xFA, CHR 0xFB, CHR 0xFC, CHR 0xFD, CHR 0xFE]"

definition lower_chr :: "char \<Rightarrow> char" where
  "lower_chr c = (case map_of upper_table c of Some d \<Rightarrow> d | None \<Rightarrow> c)"

definition lower :: "string \<Rightarrow> string" where
  \<comment> \<open>\<^verbatim>\<open>str.lower\<close>\<close>
  "lower s = map lower_chr s"

definition lstrip :: "string \<Rightarrow> string" where
  "lstrip s = dropWhile isspace_chr s"

definition rstrip :: "string \<Rightarrow> string" where
  "rstrip s = rev (dropWhile isspace_chr (rev s))"

datatype error = RuntimeError "string list" | ValueError | IndexError | TypeError

definition index :: "string \<Rightarrow> int \<Rightarrow> error + char" where
  \<comment> \<open>\<^verbatim>\<open>s[i]\<close>: a negative index counts from the end, out of range raises\<close>
  "index s i =
     (let j = (if i < 0 then i + int (length s) else i)
      in if j < 0 \<or> int (length s) \<le> j then Inl IndexError else Inr (s ! nat j))"

fun str_split :: "char \<Rightarrow> string \<Rightarrow> string list" where
  \<comment> \<open>\<^verbatim>\<open>s.split(c)\<close> for a separator of one character\<close>
  "str_split c [] = [[]]"
| "str_split c (x # xs) =
     (if x = c then [] # str_split c xs
      else (case str_split c xs of w # ws \<Rightarrow> (x # w) # ws | [] \<Rightarrow> [[x]]))"

fun find_sub :: "string \<Rightarrow> string \<Rightarrow> (string \<times> string) option" where
  \<comment> \<open>the text before and after the first occurrence of a separator\<close>
  "find_sub sep [] = (if sep = [] then Some ([], []) else None)"
| "find_sub sep (x # xs) =
     (if prefix sep (x # xs) then Some ([], drop (length sep) (x # xs))
      else (case find_sub sep xs of None \<Rightarrow> None | Some (a, b) \<Rightarrow> Some (x # a, b)))"

definition split_once :: "string \<Rightarrow> string \<Rightarrow> error + string list" where
  \<comment> \<open>\<^verbatim>\<open>s.split(sep, maxsplit=1)\<close>\<close>
  "split_once sep s =
     (if sep = [] then Inl ValueError
      else (case find_sub sep s of None \<Rightarrow> Inr [s] | Some (a, b) \<Rightarrow> Inr [a, b]))"

definition digit_value :: "char \<Rightarrow> int" where
  "digit_value c = (case map_of (zip ''0123456789'' [0, 1, 2, 3, 4, 5, 6, 7, 8, 9]) c of
                      Some d \<Rightarrow> d | None \<Rightarrow> 0)"

definition digits :: "string \<Rightarrow> bool" where
  \<comment> \<open>a non-empty run of decimal digits\<close>
  "digits s = (s \<noteq> [] \<and> list_all isdigit_chr s)"

definition decimal :: "string \<Rightarrow> int" where
  "decimal s = foldl (\<lambda>a c. 10 * a + digit_value c) 0 s"

definition default_max_str_digits :: nat where
  \<comment> \<open>\<^verbatim>\<open>sys.int_info.default_max_str_digits\<close>: the longest digit string that \<^verbatim>\<open>int\<close>
      converts when the interpreter runs with its default settings\<close>
  "default_max_str_digits = 4300"

definition py_int :: "string \<Rightarrow> error + int" where
  \<comment> \<open>\<^verbatim>\<open>int(s)\<close> on a string of decimal digits. The integer itself is unbounded, but
      the conversion raises \<^verbatim>\<open>ValueError\<close> on more than \<^const>\<open>default_max_str_digits\<close>
      digits, leading zeros counted. Anything that is not a run of digits is refused
      here (\<^verbatim>\<open>int\<close> also takes signs, blanks and underscores, which \<^verbatim>\<open>\d+\<close> never
      hands over).\<close>
  "py_int s = (if digits s \<and> length s \<le> default_max_str_digits then Inr (decimal s)
               else Inl ValueError)"

section \<open>Regular expressions\<close>

text \<open>
  The patterns of the source are kept as syntax trees and run by a backtracking matcher
  that lists every way to match, in the order in which Python's \<^verbatim>\<open>re\<close> tries them:
  a greedy operator lists the longer match first, a lazy one the shorter. The first
  element is the match \<^verbatim>\<open>re\<close> reports. A state is the position in the subject, the
  text still to be read, and the groups captured so far (latest first).
\<close>

datatype rx =
    Eps
  | Lit char            \<comment> \<open>one literal character\<close>
  | NotLit char         \<comment> \<open>\<^verbatim>\<open>[^c]\<close>, newline included\<close>
  | Dot                 \<comment> \<open>\<^verbatim>\<open>.\<close>: anything but a newline\<close>
  | Digit               \<comment> \<open>\<^verbatim>\<open>\d\<close>\<close>
  | Seq rx rx
  | Opt rx              \<comment> \<open>\<^verbatim>\<open>r?\<close>\<close>
  | Plus rx             \<comment> \<open>\<^verbatim>\<open>r+\<close>\<close>
  | LazyPlus rx         \<comment> \<open>\<^verbatim>\<open>r+?\<close>\<close>
  | LazyStar rx         \<comment> \<open>\<^verbatim>\<open>r*?\<close>\<close>
  | Group string rx     \<comment> \<open>\<^verbatim>\<open>(?P<name>r)\<close>\<close>
  | Bol                 \<comment> \<open>\<^verbatim>\<open>^\<close>\<close>
  | Eol                 \<comment> \<open>\<^verbatim>\<open>$\<close>: the end, or just before a newline that ends the subject\<close>

type_synonym groups = "(string \<times> string) list"
type_synonym mstate = "nat \<times> string \<times> groups"

text \<open>
  A repetition goes on after an iteration only when that iteration has read something
  (\<^const>\<open>length\<close> of the text decreases): every repeated part of the patterns here reads
  at least one character, so the guard never cuts a match short, and it makes the matcher
  total.
\<close>

definition step_chr :: "(char \<Rightarrow> bool) \<Rightarrow> mstate \<Rightarrow> mstate list" where
  "step_chr P st =
     (case st of (p, s, g) \<Rightarrow>
        (case s of [] \<Rightarrow> [] | c # cs \<Rightarrow> if P c then [(Suc p, cs, g)] else []))"

definition shorter :: "mstate \<Rightarrow> mstate \<Rightarrow> bool" where
  "shorter st' st = (length (fst (snd st')) < length (fst (snd st)))"

definition capture :: "string \<Rightarrow> mstate \<Rightarrow> mstate \<Rightarrow> mstate" where
  "capture name st st' =
     (case st' of (p', s', g') \<Rightarrow>
        (p', s', (name, take (length (fst (snd st)) - length s') (fst (snd st))) # g'))"

function (sequential) ms :: "rx \<Rightarrow> mstate \<Rightarrow> mstate list" where
  "ms Eps st = [st]"
| "ms (Lit c) st = step_chr (\<lambda>x. x = c) st"
| "ms (NotLit c) st = step_chr (\<lambda>x. x \<noteq> c) st"
| "ms Dot st = step_chr (\<lambda>x. x \<noteq> newline) st"
| "ms Digit st = step_chr isdigit_chr st"
| "ms (Seq a b) st = concat (map (ms b) (ms a st))"
| "ms (Opt a) st = ms a st @ [st]"
| "ms (Plus a) st =
     concat (map (\<lambda>st'. (if shorter st' st then ms (Plus a) st' else []) @ [st']) (ms a st))"
| "ms (LazyPlus a) st =
     concat (map (\<lambda>st'. st' # (if shorter st' st then ms (LazyPlus a) st' else [])) (ms a st))"
| "ms (LazyStar a) st =
     st # concat (map (\<lambda>st'. if shorter st' st then ms (LazyStar a) st' else []) (ms a st))"
| "ms (Group name a) st = map (capture name st) (ms a st)"
| "ms Bol st = (if fst st = 0 then [st] else [])"
| "ms Eol st = (if fst (snd st) = [] \<or> fst (snd st) = [newline] then [st] else [])"
  by pat_completeness auto
termination
  by (relation "measures [\<lambda>(r, st). size r, \<lambda>(r, st). length (fst (snd st))]")
     (auto simp: shorter_def)

declare ms.simps [simp del]

fun seq :: "rx list \<Rightarrow> rx" where
  "seq [] = Eps"
| "seq [r] = r"
| "seq (r # rs) = Seq r (seq rs)"

definition lits :: "string \<Rightarrow> rx" where
  "lits s = seq (map Lit s)"

definition re_match :: "rx \<Rightarrow> string \<Rightarrow> groups option" where
  \<comment> \<open>\<^verbatim>\<open>re.match\<close>: a match that starts at position 0 (it need not reach the end)\<close>
  "re_match r s = (case ms r (0, s, []) of [] \<Rightarrow> None | (p, rest, g) # _ \<Rightarrow> Some g)"

text \<open>
  The scan of \<^verbatim>\<open>re.findall\<close>: the first match at the current position is taken and the
  scan resumes after it; without a match it moves on by one character. The tag pattern
  never matches the empty string; the branch for an empty match records it and moves on.
\<close>

function findall_from :: "rx \<Rightarrow> nat \<Rightarrow> string \<Rightarrow> string list" where
  "findall_from r p s =
     (case ms r (p, s, []) of
        [] \<Rightarrow> (case s of [] \<Rightarrow> [] | c # cs \<Rightarrow> findall_from r (Suc p) cs)
      | (p', s', g) # _ \<Rightarrow>
          if length s' < length s
          then take (length s - length s') s # findall_from r p' s'
          else [] # (case s of [] \<Rightarrow> [] | c # cs \<Rightarrow> findall_from r (Suc p) cs))"
  by pat_completeness auto
termination
  by (relation "measure (\<lambda>(r, p, s). length s)") auto

declare findall_from.simps [simp del]

definition findall :: "rx \<Rightarrow> string \<Rightarrow> string list" where
  \<comment> \<open>\<^verbatim>\<open>re.findall\<close> for a pattern without groups: the matched texts, left to right,
      each search resuming where the last match ended\<close>
  "findall r s = findall_from r 0 s"

section \<open>Tokens\<close>

datatype token =
    Extension string
  | AudioQuality string
  | VideoQuality string
  | Source string
  | SubGroup string
  | RandomTag string
  | AudioLanguage string
  | SubtitlesLanguage string
  | Hash string
  | Title string
  | EpisodeNumber int

definition KNOWN_GROUPS :: "string set" where
  "KNOWN_GROUPS = set [''Erai-raws'', ''HorribleSubs'', ''FFF'', ''Commie'',
                       ''SallySubs'', ''CBM'', ''Fate-Akuma'', ''niizk'', ''OZC'',
                       ''kuchikirukia'', ''Evil_Genuis'', ''illya_'', ''Beatrice-Raws'',
                       ''Zurako'', ''NoobSubs'', ''OTR'', ''Orphan-fussoir'', ''lleur'',
                       ''REVO'', ''deanzel'', ''RH'', ''FMA1394'', ''R2JxR1'', ''Elysium'',
                       ''Afro'', ''Kametsu'', ''bxyh'', ''BSS'', ''NOP'', ''Team Nanban'',
                       ''35mm'']"

definition hexdigits :: string where
  "hexdigits = ''0123456789abcdefABCDEF''"

section \<open>Word classifiers\<close>

text \<open>The set literals of the four classifiers, named.\<close>

definition source_words :: "string set" where
  "source_words = set [''bluray'', ''blu-ray'', ''bd'', ''bdrip'', ''dvd'',
                       ''dvdrip'', ''web'', ''webrip'', ''hdtv'', ''hardsub'', ''vrv'']"

definition audio_words :: "string set" where
  "audio_words = set [''aac'', ''ac3'', ''flac'', ''vorbis'', ''dts'',
                      ''aac_5.1'', ''dts-es'', ''2ch'']"

definition language_words :: "string set" where
  "language_words = set [''jp'', ''en'', ''dual'']"

definition video_words :: "string set" where
  "video_words = set [''hevc'', ''hi10p'', ''x264'', ''x265'', ''h264'', ''10bit'']"

definition is_source_tag :: "string \<Rightarrow> error + bool" where
  "is_source_tag s = Inr (lower s \<in> source_words)"

definition channels :: "string \<Rightarrow> error + bool" where
  \<comment> \<open>\<^verbatim>\<open>len(string) == 3 and string[0].isnumeric() and string[1] == '.' and string[2].isnumeric()\<close>:
      each operand is evaluated only when those before it hold\<close>
  "channels s =
     (if length s = 3 then
        (case index s 0 of Inl e \<Rightarrow> Inl e | Inr c0 \<Rightarrow>
           if isnumeric [c0] then
             (case index s 1 of Inl e \<Rightarrow> Inl e | Inr c1 \<Rightarrow>
                if c1 = CHR ''.'' then
                  (case index s 2 of Inl e \<Rightarrow> Inl e | Inr c2 \<Rightarrow> Inr (isnumeric [c2]))
                else Inr False)
           else Inr False)
      else Inr False)"

definition is_audio_tag :: "string \<Rightarrow> error + bool" where
  "is_audio_tag s = (if lower s \<in> audio_words then Inr True else channels s)"

definition is_language_tag :: "string \<Rightarrow> error + bool" where
  "is_language_tag s = Inr (lower s \<in> language_words)"

definition resolution_p :: "string \<Rightarrow> error + bool" where
  \<comment> \<open>\<^verbatim>\<open>string[:-1].isnumeric() and string[-1] == 'p'\<close>: the index is read only
      when the left operand holds\<close>
  "resolution_p s =
     (if isnumeric (butlast s)
      then (case index s (- 1) of Inl e \<Rightarrow> Inl e | Inr c \<Rightarrow> Inr (c = CHR ''p''))
      else Inr False)"

definition width_x_height :: "string \<Rightarrow> error + bool" where
  \<comment> \<open>\<^verbatim>\<open>width, height = string.split('x')\<close> raises unless the split has two parts\<close>
  "width_x_height s =
     (if count_list s (CHR ''x'') = 1
      then (case str_split (CHR ''x'') s of
              [width, height] \<Rightarrow> Inr (isnumeric width \<and> isnumeric height)
            | _ \<Rightarrow> Inl ValueError)
      else Inr False)"

definition is_video_tag :: "string \<Rightarrow> error + bool" where
  "is_video_tag s =
     (if lower s \<in> video_words then Inr True
      else (case resolution_p s of
              Inl e \<Rightarrow> Inl e
            | Inr True \<Rightarrow> Inr True
            | Inr False \<Rightarrow> width_x_height s))"

section \<open>Classifying the words of one tag\<close>

text \<open>
  What the source prints is kept as a list of records: the warning of \<^verbatim>\<open>_tokenise_tag\<close>
  with the words it was given, and the report of \<^verbatim>\<open>_tokenise\<close> with the current
  string, the tag content and the failures collected.
\<close>

datatype printed =
    LanguageWarning "string list"
  | Unclassified string string "error list"

text \<open>
  The loop of \<^verbatim>\<open>_tokenise_tag\<close> over the words, with the two lists it fills. An
  exception of a classifier leaves the loop; the printed output is kept in every case.
\<close>

fun tag_words :: "string list \<Rightarrow> string list \<Rightarrow> token list \<Rightarrow> string list \<Rightarrow> printed list
                  \<Rightarrow> (error + token list \<times> string list) \<times> printed list" where
  "tag_words words [] tokens unclassified out = (Inr (tokens, unclassified), out)"
| "tag_words words (word # rest) tokens unclassified out =
     (case is_audio_tag word of
        Inl e \<Rightarrow> (Inl e, out)
      | Inr True \<Rightarrow> tag_words words rest (tokens @ [AudioQuality word]) unclassified out
      | Inr False \<Rightarrow>
     (case is_video_tag word of
        Inl e \<Rightarrow> (Inl e, out)
      | Inr True \<Rightarrow> tag_words words rest (tokens @ [VideoQuality word]) unclassified out
      | Inr False \<Rightarrow>
     (case is_source_tag word of
        Inl e \<Rightarrow> (Inl e, out)
      | Inr True \<Rightarrow> tag_words words rest (tokens @ [Source word]) unclassified out
      | Inr False \<Rightarrow>
     (case is_language_tag word of
        Inl e \<Rightarrow> (Inl e, out)
      | Inr True \<Rightarrow>
          tag_words words rest (tokens @ [AudioLanguage word]) unclassified
            (out @ [LanguageWarning words])
      | Inr False \<Rightarrow> tag_words words rest tokens (unclassified @ [word]) out))))"

definition tokenise_tag :: "string list \<Rightarrow> printed list \<Rightarrow> (error + token list) \<times> printed list" where
  "tokenise_tag words out =
     (case tag_words words words [] [] out of
        (Inl e, out') \<Rightarrow> (Inl e, out')
      | (Inr (tokens, unclassified), out') \<Rightarrow>
          if unclassified \<noteq> [] then (Inl (RuntimeError unclassified), out')
          else (Inr tokens, out'))"

section \<open>The tokenizer\<close>

definition TAG_PATTERN :: rx where
  \<comment> \<open>\<^verbatim>\<open>\[[^]]+]\<close>\<close>
  "TAG_PATTERN = seq [Lit (CHR ''[''), Plus (NotLit (CHR '']'')), Lit (CHR '']'')]"

definition DISC_PATTERN :: rx where
  \<comment> \<open>\<^verbatim>\<open>Disc \d\<close>\<close>
  "DISC_PATTERN = seq [lits ''Disc '', Digit]"

definition VERSION_PATTERN :: rx where
  \<comment> \<open>\<^verbatim>\<open>v\d\<close>\<close>
  "VERSION_PATTERN = seq [Lit (CHR ''v''), Digit]"

definition EPISODE_PATTERN :: rx where
  \<comment> \<open>\<^verbatim>\<open>^(?P<name>.+?) - E?(?P<episode>\d+)(\+E?(?P<second_episode>\d+))?(?P<version>v\d+)?(?P<special_tag> END)?$\<close>\<close>
  "EPISODE_PATTERN =
     seq [Bol, Group ''name'' (LazyPlus Dot), lits '' - '', Opt (Lit (CHR ''E'')),
          Group ''episode'' (Plus Digit),
          Opt (Group ''3'' (seq [Lit (CHR ''+''), Opt (Lit (CHR ''E'')),
                                 Group ''second_episode'' (Plus Digit)])),
          Opt (Group ''version'' (seq [Lit (CHR ''v''), Plus Digit])),
          Opt (Group ''special_tag'' (lits '' END'')),
          Eol]"

text \<open>
  The state of the loop of \<^verbatim>\<open>_tokenise\<close>: the two result lists, the rest of the
  string still to be cut, and what has been printed.
\<close>

record tstate =
  tokens :: "token list"
  to_tokenise :: "string list"
  string :: string
  stdout :: "printed list"

text \<open>
  The retry over the separators (\<^verbatim>\<open>for char in (' ', ',', '-', '.', '_')\<close> with its
  \<^verbatim>\<open>try\<close>, \<^verbatim>\<open>break\<close> and \<^verbatim>\<open>else\<close>): a \<^verbatim>\<open>RuntimeError\<close> is caught and
  collected, any other exception passes through. The result is the success flag.
\<close>

fun split_attempts :: "string \<Rightarrow> char list \<Rightarrow> error list \<Rightarrow> tstate
                       \<Rightarrow> error + bool \<times> error list \<times> tstate" where
  "split_attempts val [] failures st = Inr (False, failures, st)"
| "split_attempts val (char # chars) failures st =
     (case tokenise_tag (str_split char val) (stdout st) of
        (Inr new, out) \<Rightarrow> Inr (True, failures, st\<lparr>tokens := tokens st @ new, stdout := out\<rparr>)
      | (Inl (RuntimeError u), out) \<Rightarrow>
          split_attempts val chars (failures @ [RuntimeError u]) (st\<lparr>stdout := out\<rparr>)
      | (Inl e, out) \<Rightarrow> Inl e)"

definition split_path :: "string \<Rightarrow> tstate \<Rightarrow> error + tstate" where
  "split_path val st =
     (case split_attempts val [CHR '' '', CHR '','', CHR ''-'', CHR ''.'', CHR ''_''] [] st of
        Inl e \<Rightarrow> Inl e
      | Inr (success, failures, st') \<Rightarrow>
          if \<not> success
          then Inr (st'\<lparr>stdout := stdout st' @ [Unclassified (string st') val failures]\<rparr>)
          else Inr st')"

definition is_hash :: "string \<Rightarrow> bool" where
  \<comment> \<open>\<^verbatim>\<open>len(value) == 8 and not (set(value) - set(hexdigits))\<close>\<close>
  "is_hash val = (length val = 8 \<and> set val - set hexdigits = {})"

definition is_noise :: "string \<Rightarrow> bool" where
  "is_noise val =
     (re_match DISC_PATTERN val \<noteq> None
      \<or> re_match VERSION_PATTERN val \<noteq> None
      \<or> val \<in> set [''Directors Cut'', ''Clean Screen''])"

definition classify_value :: "string \<Rightarrow> tstate \<Rightarrow> error + tstate" where
  \<comment> \<open>the \<^verbatim>\<open>if\<close>/\<^verbatim>\<open>elif\<close> chain on the content of one tag\<close>
  "classify_value val st =
     (if val \<in> KNOWN_GROUPS then Inr (st\<lparr>tokens := tokens st @ [SubGroup val]\<rparr>)
      else if is_hash val then Inr (st\<lparr>tokens := tokens st @ [Hash val]\<rparr>)
      else if val = ''Multiple Subtitle''
        then Inr (st\<lparr>tokens := tokens st @ [SubtitlesLanguage ''Multiple'', SubtitlesLanguage ''EN'']\<rparr>)
      else if val = ''Dual Audio''
        then Inr (st\<lparr>tokens := tokens st @ [AudioLanguage ''EN'', AudioLanguage ''JP'']\<rparr>)
      else if is_noise val then Inr st
      else split_path val st)"

definition tag_step :: "tstate \<Rightarrow> string \<Rightarrow> error + tstate" where
  \<comment> \<open>one round of the loop over the tags\<close>
  "tag_step st tag =
     (case classify_value (butlast (tl tag)) st of
        Inl e \<Rightarrow> Inl e
      | Inr st' \<Rightarrow>
          (case split_once tag (string st') of
             Inl e \<Rightarrow> Inl e
           | Inr [remainder, rest] \<Rightarrow>
               Inr (st'\<lparr>string := lstrip rest,
                        to_tokenise := (if rstrip remainder \<noteq> []
                                        then to_tokenise st' @ [rstrip remainder]
                                        else to_tokenise st')\<rparr>)
           | Inr _ \<Rightarrow> Inl ValueError))"

fun tag_loop :: "tstate \<Rightarrow> string list \<Rightarrow> error + tstate" where
  "tag_loop st [] = Inr st"
| "tag_loop st (tag # tags) =
     (case tag_step st tag of Inl e \<Rightarrow> Inl e | Inr st' \<Rightarrow> tag_loop st' tags)"

definition group_int :: "groups \<Rightarrow> string \<Rightarrow> error + int" where
  \<comment> \<open>\<^verbatim>\<open>int(d[k])\<close>: \<^verbatim>\<open>int(None)\<close> raises \<^verbatim>\<open>TypeError\<close>\<close>
  "group_int d k = (case map_of d k of None \<Rightarrow> Inl TypeError | Some v \<Rightarrow> py_int v)"

definition title_episode :: "tstate \<Rightarrow> error + tstate" where
  \<comment> \<open>the last step: title and episode numbers from a single residual segment.
      The group \<^verbatim>\<open>name\<close> is part of every match; were it absent, the source would
      build \<^verbatim>\<open>Title(None)\<close>, which has no token here and is modelled as \<^verbatim>\<open>TypeError\<close>.\<close>
  "title_episode st =
     (case to_tokenise st of
        [segment] \<Rightarrow>
          (case re_match EPISODE_PATTERN segment of
             None \<Rightarrow> Inr st
           | Some d \<Rightarrow>
               (case map_of d ''name'' of
                  None \<Rightarrow> Inl TypeError
                | Some name \<Rightarrow>
                    (case group_int d ''episode'' of
                       Inl e \<Rightarrow> Inl e
                     | Inr episode \<Rightarrow>
                         (case map_of d ''second_episode'' of
                            None \<Rightarrow>
                              Inr (st\<lparr>tokens := tokens st @ [Title name, EpisodeNumber episode],
                                      to_tokenise := []\<rparr>)
                          | Some _ \<Rightarrow>
                              (case group_int d ''second_episode'' of
                                 Inl e \<Rightarrow> Inl e
                               | Inr second_episode \<Rightarrow>
                                   Inr (st\<lparr>tokens := tokens st @ [Title name, EpisodeNumber episode,
                                                                   EpisodeNumber second_episode],
                                           to_tokenise := []\<rparr>))))))
      | _ \<Rightarrow> Inr st)"

definition tokenise_run :: "string \<Rightarrow> error + tstate" where
  \<comment> \<open>\<^verbatim>\<open>_tokenise\<close> up to its \<^verbatim>\<open>return\<close>, the final state\<close>
  "tokenise_run s =
     (case tag_loop \<lparr>tokens = [], to_tokenise = [], string = s, stdout = []\<rparr>
             (findall TAG_PATTERN s) of
        Inl e \<Rightarrow> Inl e
      | Inr st \<Rightarrow>
          title_episode (if string st \<noteq> [] then st\<lparr>to_tokenise := to_tokenise st @ [string st]\<rparr>
                         else st))"

definition tokenise :: "string \<Rightarrow> error + token list \<times> string list" where
  \<comment> \<open>\<^verbatim>\<open>_tokenise\<close>: the pair it returns, or the exception that leaves it\<close>
  "tokenise s =
     (case tokenise_run s of Inl e \<Rightarrow> Inl e | Inr st \<Rightarrow> Inr (tokens st, to_tokenise st))"

section \<open>Admission\<close>

definition ANIME_PATTERN :: rx where
  \<comment> \<open>\<^verbatim>\<open>^(?P<group>\[[^]]+])?(?P<name>.*?)(?P<tags>\[.+])+\.(?P<ext>[^.]+)$\<close>\<close>
  "ANIME_PATTERN =
     seq [Bol,
          Opt (Group ''group'' (seq [Lit (CHR ''[''), Plus (NotLit (CHR '']'')), Lit (CHR '']'')])),
          Group ''name'' (LazyStar Dot),
          Plus (Group ''tags'' (seq [Lit (CHR ''[''), Plus Dot, Lit (CHR '']'')])),
          Lit (CHR ''.''),
          Group ''ext'' (Plus (NotLit (CHR ''.''))),
          Eol]"

definition is_anime :: "string \<Rightarrow> bool" where
  "is_anime s = (re_match ANIME_PATTERN s \<noteq> None \<and> CHR '' '' \<in> set s)"

section \<open>What the word loop computes\<close>

definition holds :: "error + bool \<Rightarrow> bool" where
  \<comment> \<open>a classifier call that returns \<^verbatim>\<open>True\<close>\<close>
  "holds r = (r = Inr True)"

definition word_category :: "string \<Rightarrow> token option" where
  \<comment> \<open>the token of one word: the first category that matches, in the order
      audio, video, source, language\<close>
  "word_category w =
     (if holds (is_audio_tag w) then Some (AudioQuality w)
      else if holds (is_video_tag w) then Some (VideoQuality w)
      else if holds (is_source_tag w) then Some (Source w)
      else if holds (is_language_tag w) then Some (AudioLanguage w)
      else None)"

definition warns :: "string \<Rightarrow> bool" where
  \<comment> \<open>the words that reach the language branch\<close>
  "warns w = (word_category w = Some (AudioLanguage w))"

lemma str_split_length: "length (str_split c s) = Suc (count_list s c)"
  by (induction s) (auto split: list.splits)

lemma index_in_range: "0 \<le> i \<Longrightarrow> i < int (length s) \<Longrightarrow> index s i = Inr (s ! nat i)"
  by (simp add: index_def)

lemma index_last: "s \<noteq> [] \<Longrightarrow> index s (- 1) = Inr (last s)"
  by (cases s rule: rev_cases) (simp_all add: index_def nth_append)

lemma isnumeric_butlast_not_Nil: "isnumeric (butlast s) \<Longrightarrow> s \<noteq> []"
  by (auto simp: isnumeric_def)

text \<open>No classifier raises: every index is guarded, and the unpacked split has two parts.\<close>

lemma channels_total: "\<exists>b. channels s = Inr b"
  by (auto simp: channels_def index_in_range)

lemma is_audio_tag_total: "\<exists>b. is_audio_tag s = Inr b"
  using channels_total [of s] by (auto simp: is_audio_tag_def)

lemma resolution_p_total: "\<exists>b. resolution_p s = Inr b"
  by (auto simp: resolution_p_def index_last dest: isnumeric_butlast_not_Nil)

lemma width_x_height_total: "\<exists>b. width_x_height s = Inr b"
proof (cases "count_list s (CHR ''x'') = 1")
  case True
  then have "length (str_split (CHR ''x'') s) = 2"
    by (simp add: str_split_length)
  then obtain w h where "str_split (CHR ''x'') s = [w, h]"
    by (auto simp: length_Suc_conv numeral_2_eq_2)
  with True show ?thesis by (simp add: width_x_height_def)
next
  case False
  then show ?thesis by (auto simp: width_x_height_def)
qed

lemma is_video_tag_total: "\<exists>b. is_video_tag s = Inr b"
proof -
  obtain b1 where b1: "resolution_p s = Inr b1" using resolution_p_total by blast
  obtain b2 where b2: "width_x_height s = Inr b2" using width_x_height_total by blast
  show ?thesis by (cases b1) (auto simp: is_video_tag_def b1 b2)
qed

lemma is_source_tag_total: "\<exists>b. is_source_tag s = Inr b"
  by (simp add: is_source_tag_def)

lemma is_language_tag_total: "\<exists>b. is_language_tag s = Inr b"
  by (simp add: is_language_tag_def)

lemma total_cases: "\<exists>b. r = Inr b \<Longrightarrow> r = Inr True \<or> r = Inr False"
  by auto

lemma tag_words_eq:
  "tag_words all ws toks uncl out =
     (Inr (toks @ List.map_filter word_category ws,
           uncl @ filter (\<lambda>w. word_category w = None) ws),
      out @ map (\<lambda>w. LanguageWarning all) (filter warns ws))"
proof (induction ws arbitrary: toks uncl out)
  case Nil
  then show ?case by (simp add: List.map_filter_simps)
next
  case (Cons w ws)
  note a = total_cases [OF is_audio_tag_total [of w]]
  note v = total_cases [OF is_video_tag_total [of w]]
  note s = total_cases [OF is_source_tag_total [of w]]
  note l = total_cases [OF is_language_tag_total [of w]]
  from a v s l show ?case
    by (auto simp: Cons.IH List.map_filter_simps word_category_def warns_def holds_def)
qed

lemma tokenise_tag_eq:
  "tokenise_tag ws out =
     (if filter (\<lambda>w. word_category w = None) ws \<noteq> []
      then Inl (RuntimeError (filter (\<lambda>w. word_category w = None) ws))
      else Inr (List.map_filter word_category ws),
      out @ map (\<lambda>w. LanguageWarning ws) (filter warns ws))"
  by (simp add: tokenise_tag_def tag_words_eq)

lemma map_filter_all_Some:
  "filter (\<lambda>w. f w = None) ws = [] \<Longrightarrow> map Some (List.map_filter f ws) = map f ws"
  by (induction ws) (auto simp: List.map_filter_simps split: if_splits)

lemma tokenise_tag_Inr:
  assumes "tokenise_tag ws out = (Inr toks, out')"
  shows "map Some toks = map word_category ws"
proof -
  from assms have "filter (\<lambda>w. word_category w = None) ws = []"
    and "toks = List.map_filter word_category ws"
    by (auto simp: tokenise_tag_eq split: if_splits)
  then show ?thesis by (simp add: map_filter_all_Some)
qed

lemma tokenise_tag_nth:
  assumes "tokenise_tag ws out = (Inr toks, out')" and "i < length ws"
  shows "length toks = length ws" and "word_category (ws ! i) = Some (toks ! i)"
proof -
  have eq: "map Some toks = map word_category ws"
    using assms(1) by (rule tokenise_tag_Inr)
  then show len: "length toks = length ws"
    using length_map by metis
  have "map Some toks ! i = map word_category ws ! i"
    using eq by simp
  with assms(2) len show "word_category (ws ! i) = Some (toks ! i)"
    by simp
qed

section \<open>Claims about the word loop\<close>

text \<open>
  C5. In \<^verbatim>\<open>_tokenise_tag\<close> the predicates are tried in the order audio, video, source,
  language, and a word gets the token of the first one that holds: when the call returns
  its tokens, there is one token per word, in the order of the words, and the token of
  each word is \<open>AudioQuality\<close> if the audio predicate holds (whatever the others say),
  else \<open>VideoQuality\<close> if the video predicate holds, else \<open>Source\<close> if the source
  predicate holds, else \<open>AudioLanguage\<close>.
\<close>

theorem C5_priority_order:
  assumes "tokenise_tag ws out = (Inr toks, out')" and "i < length ws"
  shows "length toks = length ws \<and>
         toks ! i =
           (if holds (is_audio_tag (ws ! i)) then AudioQuality (ws ! i)
            else if holds (is_video_tag (ws ! i)) then VideoQuality (ws ! i)
            else if holds (is_source_tag (ws ! i)) then Source (ws ! i)
            else AudioLanguage (ws ! i))"
  using tokenise_tag_nth [OF assms]
  by (auto simp: word_category_def split: if_splits)

theorem C5_priority_order_witness:
  "tokenise_tag [''flac'', ''720p'', ''BD'', ''en''] [] =
     (Inr [AudioQuality ''flac'', VideoQuality ''720p'', Source ''BD'', AudioLanguage ''en''],
      [LanguageWarning [''flac'', ''720p'', ''BD'', ''en'']])
   \<and> holds (is_audio_tag ''flac'')
   \<and> [AudioQuality ''flac'', VideoQuality ''720p'', Source ''BD'', AudioLanguage ''en''] ! 0
       = AudioQuality ''flac''"
proof -
  have run: "tokenise_tag [''flac'', ''720p'', ''BD'', ''en''] [] =
     (Inr [AudioQuality ''flac'', VideoQuality ''720p'', Source ''BD'', AudioLanguage ''en''],
      [LanguageWarning [''flac'', ''720p'', ''BD'', ''en'']])"
    by code_simp
  have audio: "holds (is_audio_tag ''flac'')"
    by code_simp
  from C5_priority_order [OF run, of 0] audio show ?thesis
    using run by simp
qed

section \<open>The retry over the separators\<close>

definition fully_classified :: "string list \<Rightarrow> bool" where
  "fully_classified ws = list_all (\<lambda>w. word_category w \<noteq> None) ws"

definition attempt_error :: "string \<Rightarrow> char \<Rightarrow> error" where
  "attempt_error val c = RuntimeError (filter (\<lambda>w. word_category w = None) (str_split c val))"

definition attempt_printed :: "string \<Rightarrow> char \<Rightarrow> printed list" where
  "attempt_printed val c =
     map (\<lambda>w. LanguageWarning (str_split c val)) (filter warns (str_split c val))"

lemma fully_classified_filter:
  "fully_classified ws \<longleftrightarrow> filter (\<lambda>w. word_category w = None) ws = []"
  by (induction ws) (auto simp: fully_classified_def)

lemma tokenise_tag_split:
  "tokenise_tag (str_split c val) out =
     (if fully_classified (str_split c val)
      then Inr (List.map_filter word_category (str_split c val))
      else Inl (attempt_error val c),
      out @ attempt_printed val c)"
  by (simp add: tokenise_tag_eq fully_classified_filter attempt_error_def attempt_printed_def)

lemma split_attempts_eq:
  "split_attempts val cs fails st =
     Inr (find (\<lambda>c. fully_classified (str_split c val)) cs \<noteq> None,
          fails @ map (attempt_error val) (takeWhile (\<lambda>c. \<not> fully_classified (str_split c val)) cs),
          st\<lparr>tokens := tokens st @
                 (case find (\<lambda>c. fully_classified (str_split c val)) cs of
                    None \<Rightarrow> [] | Some c \<Rightarrow> List.map_filter word_category (str_split c val)),
             stdout := stdout st @
                 concat (map (attempt_printed val)
                           (takeWhile (\<lambda>c. \<not> fully_classified (str_split c val)) cs)) @
                 (case find (\<lambda>c. fully_classified (str_split c val)) cs of
                    None \<Rightarrow> [] | Some c \<Rightarrow> attempt_printed val c)\<rparr>)"
proof (induction cs arbitrary: fails st)
  case Nil
  then show ?case by simp
next
  case (Cons c cs)
  show ?case
  proof (cases "fully_classified (str_split c val)")
    case True
    then show ?thesis by (simp add: tokenise_tag_split)
  next
    case False
    then show ?thesis
      by (simp add: tokenise_tag_split Cons.IH attempt_error_def)
  qed
qed


definition SEPARATORS :: "char list" where
  "SEPARATORS = [CHR '' '', CHR '','', CHR ''-'', CHR ''.'', CHR ''_'']"

definition accepted :: "string \<Rightarrow> char option" where
  "accepted val = find (\<lambda>c. fully_classified (str_split c val)) SEPARATORS"

lemma split_path_eq:
  "split_path val st =
     Inr (st\<lparr>tokens := tokens st @
                 (case accepted val of
                    None \<Rightarrow> [] | Some c \<Rightarrow> List.map_filter word_category (str_split c val)),
             stdout := stdout st @
                 concat (map (attempt_printed val)
                           (takeWhile (\<lambda>c. \<not> fully_classified (str_split c val)) SEPARATORS)) @
                 (case accepted val of
                    None \<Rightarrow> [Unclassified (string st) val (map (attempt_error val) SEPARATORS)]
                  | Some c \<Rightarrow> attempt_printed val c)\<rparr>)"
proof (cases "accepted val")
  case None
  then have all: "takeWhile (\<lambda>c. \<not> fully_classified (str_split c val)) SEPARATORS = SEPARATORS"
    unfolding accepted_def by (simp add: find_None_iff)
  from None show ?thesis
    unfolding split_path_def SEPARATORS_def [symmetric] split_attempts_eq accepted_def [symmetric]
    by (simp add: all)
next
  case (Some c)
  then show ?thesis
    unfolding split_path_def SEPARATORS_def [symmetric] split_attempts_eq accepted_def [symmetric]
    by simp
qed

section \<open>Which tokens can appear\<close>

definition produced :: "token \<Rightarrow> bool" where
  "produced t = (case t of RandomTag _ \<Rightarrow> False | Extension _ \<Rightarrow> False | _ \<Rightarrow> True)"

definition word_token :: "token \<Rightarrow> bool" where
  "word_token t = (case t of AudioQuality _ \<Rightarrow> True | VideoQuality _ \<Rightarrow> True | Source _ \<Rightarrow> True
                   | AudioLanguage _ \<Rightarrow> True | _ \<Rightarrow> False)"

lemma word_category_kind: "word_category w = Some t \<Longrightarrow> word_token t"
  by (auto simp: word_category_def word_token_def split: if_splits)

lemma map_filter_word_tokens: "list_all word_token (List.map_filter word_category ws)"
  by (induction ws) (auto simp: List.map_filter_simps word_category_kind split: option.splits)

lemma split_path_tokens:
  "\<exists>st' new. split_path val st = Inr st' \<and> tokens st' = tokens st @ new \<and> list_all word_token new
      \<and> to_tokenise st' = to_tokenise st \<and> string st' = string st"
  by (cases "accepted val") (simp_all add: split_path_eq map_filter_word_tokens)

text \<open>An empty state, for examples.\<close>

definition st0 :: tstate where
  "st0 = \<lparr>tokens = [], to_tokenise = [], string = [], stdout = []\<rparr>"

text \<open>
  C10. A word for which the language predicate holds and none of the audio, video and
  source predicates does is emitted as an \<open>AudioLanguage\<close> token that carries the word
  as it is written, wherever it stands among the words. When \<^verbatim>\<open>_tokenise_tag\<close>
  returns its tokens for a list of words, the token at the position of such a word is
  \<open>AudioLanguage\<close> of that word, no token of the list is a \<open>SubtitlesLanguage\<close>, and
  the warning has been printed; alone in its list, the word is always accepted and its
  token is the whole result. The same holds in the retry over the separators: when
  the first fully classified split of a tag content has such a word at position \<open>i\<close>,
  the tokens that the generic path adds have \<open>AudioLanguage\<close> of that word at
  position \<open>i\<close> and no \<open>SubtitlesLanguage\<close> among them.
\<close>

theorem C10_language_word:
  assumes "i < length ws" and "holds (is_language_tag (ws ! i))"
    and "\<not> holds (is_audio_tag (ws ! i))" and "\<not> holds (is_video_tag (ws ! i))"
    and "\<not> holds (is_source_tag (ws ! i))"
  shows "(tokenise_tag ws out = (Inr toks, out') \<longrightarrow>
            length toks = length ws \<and> toks ! i = AudioLanguage (ws ! i)
            \<and> (\<forall>v. SubtitlesLanguage v \<notin> set toks)
            \<and> LanguageWarning ws \<in> set out')
         \<and> (length ws = 1 \<longrightarrow>
              tokenise_tag ws out = (Inr [AudioLanguage (ws ! i)], out @ [LanguageWarning ws]))
         \<and> (accepted val = Some c \<and> str_split c val = ws \<longrightarrow>
              (\<exists>st' new. split_path val st = Inr st' \<and> tokens st' = tokens st @ new
                 \<and> length new = length ws \<and> new ! i = AudioLanguage (ws ! i)
                 \<and> (\<forall>v. SubtitlesLanguage v \<notin> set new)))"
proof (intro conjI impI)
  have cat: "word_category (ws ! i) = Some (AudioLanguage (ws ! i))"
    using assms(2-5) by (simp add: word_category_def)
  {
    assume run: "tokenise_tag ws out = (Inr toks, out')"
    from tokenise_tag_nth [OF run assms(1)] cat
    show "length toks = length ws" and "toks ! i = AudioLanguage (ws ! i)"
      by simp_all
    from run have "toks = List.map_filter word_category ws"
      by (auto simp: tokenise_tag_eq split: if_splits)
    then have "list_all word_token toks"
      by (simp add: map_filter_word_tokens)
    then show "\<forall>v. SubtitlesLanguage v \<notin> set toks"
      by (auto simp: list_all_iff word_token_def)
    from cat assms(1) have "ws ! i \<in> set (filter warns ws)"
      by (simp add: warns_def)
    moreover from run have "out' = out @ map (\<lambda>w. LanguageWarning ws) (filter warns ws)"
      by (auto simp: tokenise_tag_eq split: if_splits)
    ultimately show "LanguageWarning ws \<in> set out'"
      by auto
  }
  {
    assume "length ws = 1"
    with assms(1) obtain w where w: "ws = [w]" "i = 0"
      by (cases ws) auto
    from cat show "tokenise_tag ws out = (Inr [AudioLanguage (ws ! i)], out @ [LanguageWarning ws])"
      unfolding w by (simp add: tokenise_tag_eq warns_def List.map_filter_simps)
  }
  {
    assume a: "accepted val = Some c \<and> str_split c val = ws"
    let ?new = "List.map_filter word_category ws"
    from a have "fully_classified ws"
      by (auto simp: accepted_def find_Some_iff)
    then have m: "map Some ?new = map word_category ws"
      by (simp add: fully_classified_filter map_filter_all_Some)
    then have len: "length ?new = length ws"
      using length_map by metis
    have "map Some ?new ! i = map word_category ws ! i"
      using m by simp
    with assms(1) len cat have nth: "?new ! i = AudioLanguage (ws ! i)"
      by simp
    have "list_all word_token ?new"
      by (rule map_filter_word_tokens)
    then have "\<forall>v. SubtitlesLanguage v \<notin> set ?new"
      by (auto simp: list_all_iff word_token_def)
    with a len nth
    show "\<exists>st' new. split_path val st = Inr st' \<and> tokens st' = tokens st @ new
            \<and> length new = length ws \<and> new ! i = AudioLanguage (ws ! i)
            \<and> (\<forall>v. SubtitlesLanguage v \<notin> set new)"
      by (simp add: split_path_eq)
  }
qed

theorem C10_language_word_witness:
  "holds (is_language_tag ([''flac'', ''dual''] ! 1))
   \<and> \<not> holds (is_audio_tag ([''flac'', ''dual''] ! 1))
   \<and> \<not> holds (is_video_tag ([''flac'', ''dual''] ! 1))
   \<and> \<not> holds (is_source_tag ([''flac'', ''dual''] ! 1))
   \<and> tokenise_tag [''flac'', ''dual''] [] =
       (Inr [AudioQuality ''flac'', AudioLanguage ''dual''], [LanguageWarning [''flac'', ''dual'']])
   \<and> [AudioQuality ''flac'', AudioLanguage ''dual''] ! 1 = AudioLanguage ''dual''
   \<and> accepted ''flac dual'' = Some (CHR '' '')
   \<and> str_split (CHR '' '') ''flac dual'' = [''flac'', ''dual'']
   \<and> (\<exists>st' new. split_path ''flac dual'' st0 = Inr st' \<and> tokens st' = tokens st0 @ new
          \<and> new ! 1 = AudioLanguage ''dual'')
   \<and> tokenise_tag [''dual''] [] = (Inr [AudioLanguage ''dual''], [LanguageWarning [''dual'']])"
proof -
  have l: "holds (is_language_tag ([''flac'', ''dual''] ! 1))" by code_simp
  have a: "\<not> holds (is_audio_tag ([''flac'', ''dual''] ! 1))" by code_simp
  have v: "\<not> holds (is_video_tag ([''flac'', ''dual''] ! 1))" by code_simp
  have s: "\<not> holds (is_source_tag ([''flac'', ''dual''] ! 1))" by code_simp
  have i: "1 < length [''flac'', ''dual'']" by simp
  have run: "tokenise_tag [''flac'', ''dual''] [] =
       (Inr [AudioQuality ''flac'', AudioLanguage ''dual''], [LanguageWarning [''flac'', ''dual'']])"
    by code_simp
  have acc: "accepted ''flac dual'' = Some (CHR '' '')" by code_simp
  have sp: "str_split (CHR '' '') ''flac dual'' = [''flac'', ''dual'']" by code_simp
  note t = C10_language_word [OF i l a v s, of "[]" "[AudioQuality ''flac'', AudioLanguage ''dual'']"
      "[LanguageWarning [''flac'', ''dual'']]" "''flac dual''" "CHR '' ''" st0]
  from t run have n: "[AudioQuality ''flac'', AudioLanguage ''dual''] ! 1 = AudioLanguage ''dual''"
    by simp
  from t acc sp have e: "\<exists>st' new. split_path ''flac dual'' st0 = Inr st' \<and> tokens st' = tokens st0 @ new
          \<and> new ! 1 = AudioLanguage ''dual''"
    by auto
  have l1: "holds (is_language_tag ([''dual''] ! 0))" by code_simp
  have a1: "\<not> holds (is_audio_tag ([''dual''] ! 0))" by code_simp
  have v1: "\<not> holds (is_video_tag ([''dual''] ! 0))" by code_simp
  have s1: "\<not> holds (is_source_tag ([''dual''] ! 0))" by code_simp
  have i1: "0 < length [''dual'']" by simp
  from C10_language_word [OF i1 l1 a1 v1 s1, of "[]"]
  have one: "tokenise_tag [''dual''] [] = (Inr [AudioLanguage ''dual''], [LanguageWarning [''dual'']])"
    by simp
  from l a v s run n acc sp e one show ?thesis by blast
qed

lemma word_token_produced: "word_token t \<Longrightarrow> produced t"
  by (cases t) (simp_all add: word_token_def produced_def)

lemma classify_value_tokens:
  "\<exists>st' new. classify_value val st = Inr st' \<and> tokens st' = tokens st @ new \<and> list_all produced new
      \<and> to_tokenise st' = to_tokenise st \<and> string st' = string st"
proof -
  obtain st' new where "split_path val st = Inr st'" "tokens st' = tokens st @ new"
    "list_all word_token new" "to_tokenise st' = to_tokenise st" "string st' = string st"
    using split_path_tokens by blast
  moreover from this have "list_all produced new"
    by (simp add: list_all_iff word_token_produced)
  ultimately show ?thesis
    unfolding classify_value_def by (auto simp: produced_def)
qed


lemma tag_step_tokens:
  assumes "tag_step st tag = Inr st'"
  shows "\<exists>new. tokens st' = tokens st @ new \<and> list_all produced new"
proof -
  obtain st1 new where c: "classify_value (butlast (tl tag)) st = Inr st1"
    and t: "tokens st1 = tokens st @ new" "list_all produced new"
    using classify_value_tokens by blast
  from assms c have "tokens st' = tokens st1"
    by (auto simp: tag_step_def split: sum.splits list.splits)
  with t show ?thesis by auto
qed

lemma tag_loop_produced:
  "tag_loop st tags = Inr st' \<Longrightarrow> list_all produced (tokens st) \<Longrightarrow> list_all produced (tokens st')"
proof (induction tags arbitrary: st)
  case Nil
  then show ?case by simp
next
  case (Cons tag tags)
  from Cons.prems(1) obtain st1 where s1: "tag_step st tag = Inr st1"
    and l: "tag_loop st1 tags = Inr st'"
    by (auto split: sum.splits)
  from tag_step_tokens [OF s1] Cons.prems(2) have "list_all produced (tokens st1)"
    by auto
  with Cons.IH [OF l] show ?case .
qed

lemma title_episode_produced:
  "title_episode st = Inr st' \<Longrightarrow> list_all produced (tokens st) \<Longrightarrow> list_all produced (tokens st')"
  by (auto simp: title_episode_def produced_def split: list.splits option.splits sum.splits)

text \<open>
  C9. No token of a returned sequence is a \<open>RandomTag\<close> or an \<open>Extension\<close>: the
  tag loop builds sub-group, hash, language, audio, video and source tokens, the last
  step builds titles and episode numbers, and a tag that cannot be classified adds
  nothing.
\<close>

theorem C9_no_random_tag:
  assumes "tokenise s = Inr (toks, segs)"
  shows "RandomTag v \<notin> set toks \<and> Extension v \<notin> set toks"
proof -
  from assms obtain st where run: "tokenise_run s = Inr st" and toks: "toks = tokens st"
    by (auto simp: tokenise_def split: sum.splits)
  from run obtain st1 where
    loop: "tag_loop \<lparr>tokens = [], to_tokenise = [], string = s, stdout = []\<rparr>
             (findall TAG_PATTERN s) = Inr st1"
    and fin: "title_episode (if string st1 \<noteq> [] then st1\<lparr>to_tokenise := to_tokenise st1 @ [string st1]\<rparr>
                             else st1) = Inr st"
    by (auto simp: tokenise_run_def split: sum.splits)
  from tag_loop_produced [OF loop] have "list_all produced (tokens st1)" by simp
  with title_episode_produced [OF fin] have "list_all produced (tokens st)"
    by (simp split: if_splits)
  with toks have "\<forall>t \<in> set toks. produced t" by (simp add: list_all_iff)
  then show ?thesis by (auto simp: produced_def)
qed

theorem C9_no_random_tag_witness:
  "tokenise ''[FFF] Show - 01 [what is this][1080p]'' =
     Inr ([SubGroup ''FFF'', VideoQuality ''1080p'', Title ''Show'', EpisodeNumber 1], [])
   \<and> RandomTag ''what is this'' \<notin>
       set [SubGroup ''FFF'', VideoQuality ''1080p'', Title ''Show'', EpisodeNumber 1]"
proof -
  have run: "tokenise ''[FFF] Show - 01 [what is this][1080p]'' =
     Inr ([SubGroup ''FFF'', VideoQuality ''1080p'', Title ''Show'', EpisodeNumber 1], [])"
    by code_simp
  from C9_no_random_tag [OF run, of "''what is this''"] run show ?thesis by simp
qed

text \<open>
  C2. On \<^verbatim>\<open>[HorribleSubs] Show - 05 [720p]\<close> the tokenizer returns the sub-group, the
  video quality, the title and the episode number 5, in that order, and no residual
  segment.
\<close>

theorem C2_tokenise_example:
  "tokenise ''[HorribleSubs] Show - 05 [720p]'' =
     Inr ([SubGroup ''HorribleSubs'', VideoQuality ''720p'', Title ''Show'', EpisodeNumber 5], [])"
  by code_simp

text \<open>
  C8. A tag whose content is \<^verbatim>\<open>Dual Audio\<close> adds exactly \<open>AudioLanguage EN\<close> and
  \<open>AudioLanguage JP\<close>, in that order, to the tokens collected so far, in whatever state
  the loop reaches it: both the classification of the content and the whole round of the
  loop on \<^verbatim>\<open>[Dual Audio]\<close>.
\<close>

theorem C8_dual_audio:
  "classify_value ''Dual Audio'' st =
     Inr (st\<lparr>tokens := tokens st @ [AudioLanguage ''EN'', AudioLanguage ''JP'']\<rparr>)
   \<and> (\<forall>st'. tag_step st ''[Dual Audio]'' = Inr st' \<longrightarrow>
         tokens st' = tokens st @ [AudioLanguage ''EN'', AudioLanguage ''JP''])"
proof -
  have c: "classify_value ''Dual Audio'' st =
     Inr (st\<lparr>tokens := tokens st @ [AudioLanguage ''EN'', AudioLanguage ''JP'']\<rparr>)"
    by (simp add: classify_value_def KNOWN_GROUPS_def is_hash_def)
  have "butlast (tl ''[Dual Audio]'') = ''Dual Audio''" by simp
  with c show ?thesis
    by (auto simp: tag_step_def split: sum.splits list.splits)
qed

theorem C8_dual_audio_witness:
  "tag_step \<lparr>tokens = [SubGroup ''FFF''], to_tokenise = [], string = ''Show [Dual Audio][720p]'',
             stdout = []\<rparr> ''[Dual Audio]'' =
     Inr \<lparr>tokens = [SubGroup ''FFF'', AudioLanguage ''EN'', AudioLanguage ''JP''],
          to_tokenise = [''Show''], string = ''[720p]'', stdout = []\<rparr>
   \<and> tokens \<lparr>tokens = [SubGroup ''FFF'', AudioLanguage ''EN'', AudioLanguage ''JP''],
          to_tokenise = [''Show''], string = ''[720p]'', stdout = []\<rparr> =
       [SubGroup ''FFF''] @ [AudioLanguage ''EN'', AudioLanguage ''JP'']"
proof -
  let ?st = "\<lparr>tokens = [SubGroup ''FFF''], to_tokenise = [], string = ''Show [Dual Audio][720p]'',
             stdout = []\<rparr>"
  have run: "tag_step ?st ''[Dual Audio]'' =
     Inr \<lparr>tokens = [SubGroup ''FFF'', AudioLanguage ''EN'', AudioLanguage ''JP''],
          to_tokenise = [''Show''], string = ''[720p]'', stdout = []\<rparr>"
    by code_simp
  from C8_dual_audio [of ?st] run show ?thesis by simp
qed

text \<open>
  C4. For a tag content that is no known group, no hash, none of the two literals and no
  noise pattern, the classification returns without an exception; the separators are
  tried in the order space, comma, hyphen, full stop, underscore; the tokens added are
  those of the words of the first split in which every word is classified, one per word;
  and when no split is fully classified no token is added. The residual segments and
  the string are left as they are.
\<close>

theorem C4_generic_split:
  assumes "val \<notin> KNOWN_GROUPS" and "\<not> is_hash val"
    and "val \<noteq> ''Multiple Subtitle''" and "val \<noteq> ''Dual Audio''" and "\<not> is_noise val"
  shows "\<exists>st' new. classify_value val st = Inr st' \<and> tokens st' = tokens st @ new
           \<and> to_tokenise st' = to_tokenise st \<and> string st' = string st
           \<and> (case find (\<lambda>c. fully_classified (str_split c val))
                      [CHR '' '', CHR '','', CHR ''-'', CHR ''.'', CHR ''_''] of
                 None \<Rightarrow> new = []
               | Some c \<Rightarrow> map Some new = map word_category (str_split c val))"
proof -
  have c: "classify_value val st = split_path val st"
    using assms by (simp add: classify_value_def)
  show ?thesis
  proof (cases "accepted val")
    case None
    then show ?thesis
      unfolding c split_path_eq by (simp add: accepted_def SEPARATORS_def)
  next
    case (Some ch)
    then have "fully_classified (str_split ch val)"
      by (auto simp: accepted_def find_Some_iff)
    then have "map Some (List.map_filter word_category (str_split ch val)) =
               map word_category (str_split ch val)"
      by (simp add: fully_classified_filter map_filter_all_Some)
    with Some show ?thesis
      unfolding c split_path_eq by (simp add: accepted_def SEPARATORS_def)
  qed
qed

theorem C4_generic_split_witness:
  "''AAC,x264'' \<notin> KNOWN_GROUPS \<and> \<not> is_hash ''AAC,x264''
   \<and> ''AAC,x264'' \<noteq> ''Multiple Subtitle'' \<and> ''AAC,x264'' \<noteq> ''Dual Audio''
   \<and> \<not> is_noise ''AAC,x264''
   \<and> \<not> fully_classified (str_split (CHR '' '') ''AAC,x264'')
   \<and> str_split (CHR '','') ''AAC,x264'' = [''AAC'', ''x264'']
   \<and> (\<exists>st'. classify_value ''AAC,x264'' st0 = Inr st'
          \<and> tokens st' = [AudioQuality ''AAC'', VideoQuality ''x264''])"
proof -
  have h: "''AAC,x264'' \<notin> KNOWN_GROUPS" "\<not> is_hash ''AAC,x264''"
    "''AAC,x264'' \<noteq> ''Multiple Subtitle''" "''AAC,x264'' \<noteq> ''Dual Audio''"
    "\<not> is_noise ''AAC,x264''"
    by code_simp+
  have f: "find (\<lambda>c. fully_classified (str_split c ''AAC,x264''))
             [CHR '' '', CHR '','', CHR ''-'', CHR ''.'', CHR ''_''] = Some (CHR '','')"
    by code_simp
  have n: "\<not> fully_classified (str_split (CHR '' '') ''AAC,x264'')"
    by code_simp
  have w: "map word_category (str_split (CHR '','') ''AAC,x264'') =
           [Some (AudioQuality ''AAC''), Some (VideoQuality ''x264'')]"
    "str_split (CHR '','') ''AAC,x264'' = [''AAC'', ''x264'']"
    by code_simp+
  have t: "tokens st0 = []" by (simp add: st0_def)
  have "\<exists>st' new. classify_value ''AAC,x264'' st0 = Inr st' \<and> tokens st' = tokens st0 @ new
          \<and> map Some new = map word_category (str_split (CHR '','') ''AAC,x264'')"
    using C4_generic_split [OF h, of st0] unfolding f by auto
  then obtain st' new where r: "classify_value ''AAC,x264'' st0 = Inr st'"
    "tokens st' = tokens st0 @ new"
    "map Some new = map word_category (str_split (CHR '','') ''AAC,x264'')"
    by blast
  from r(3) have "map Some new = [Some (AudioQuality ''AAC''), Some (VideoQuality ''x264'')]"
    unfolding w(1) .
  then have "new = [AudioQuality ''AAC'', VideoQuality ''x264'']"
    by auto
  with r(1,2) t have "\<exists>st'. classify_value ''AAC,x264'' st0 = Inr st'
          \<and> tokens st' = [AudioQuality ''AAC'', VideoQuality ''x264'']"
    by auto
  with h n w(2) show ?thesis by blast
qed


section \<open>Hashes\<close>

lemma word_token_not_Hash: "list_all word_token new \<Longrightarrow> Hash h \<notin> set new"
  by (auto simp: list_all_iff word_token_def)

text \<open>
  C6, as stated, fails on a content of eight characters that is no hash but a noise
  pattern: \<^verbatim>\<open>Disc 123\<close> is dropped by the noise branch and never reaches the split
  over the separators, which would have printed its report of a failure.
\<close>

theorem C6_hash_counterexample:
  "''Disc 123'' \<notin> KNOWN_GROUPS \<and> length ''Disc 123'' = 8
   \<and> \<not> set ''Disc 123'' \<subseteq> set hexdigits
   \<and> classify_value ''Disc 123'' st0 = Inr st0
   \<and> split_path ''Disc 123'' st0 =
       Inr (st0\<lparr>stdout := [Unclassified [] ''Disc 123''
                                [RuntimeError [''Disc'', ''123''], RuntimeError [''Disc 123''],
                                 RuntimeError [''Disc 123''], RuntimeError [''Disc 123''],
                                 RuntimeError [''Disc 123'']]]\<rparr>)
   \<and> split_path ''Disc 123'' st0 \<noteq> classify_value ''Disc 123'' st0"
  by code_simp

text \<open>
  C6, amended. For a content of eight characters that is no known group: if every
  character is a hexadecimal digit, exactly one token is added, the \<open>Hash\<close> of the
  content as it is written; otherwise no \<open>Hash\<close> token is added, and the content is
  dropped without a report when it matches a noise pattern and takes the split over the
  separators only when it does not.
\<close>

theorem C6_hash_amended:
  assumes "val \<notin> KNOWN_GROUPS" and "length val = 8"
  shows "(set val \<subseteq> set hexdigits \<longrightarrow>
            classify_value val st = Inr (st\<lparr>tokens := tokens st @ [Hash val]\<rparr>))
       \<and> (\<not> set val \<subseteq> set hexdigits \<longrightarrow>
            classify_value val st = (if is_noise val then Inr st else split_path val st)
            \<and> (\<exists>st' new. classify_value val st = Inr st' \<and> tokens st' = tokens st @ new
                  \<and> (\<forall>h. Hash h \<notin> set new)))"
proof (intro conjI impI)
  assume "set val \<subseteq> set hexdigits"
  with assms show "classify_value val st = Inr (st\<lparr>tokens := tokens st @ [Hash val]\<rparr>)"
    by (simp add: classify_value_def is_hash_def)
next
  assume nh: "\<not> set val \<subseteq> set hexdigits"
  from assms(2) have lit: "val \<noteq> ''Multiple Subtitle''" "val \<noteq> ''Dual Audio''"
    by auto
  from assms nh lit
  show c: "classify_value val st = (if is_noise val then Inr st else split_path val st)"
    by (simp add: classify_value_def is_hash_def)
  obtain st1 new1 where sp: "split_path val st = Inr st1" "tokens st1 = tokens st @ new1"
    "list_all word_token new1"
    using split_path_tokens by blast
  show "\<exists>st' new. classify_value val st = Inr st' \<and> tokens st' = tokens st @ new
                  \<and> (\<forall>h. Hash h \<notin> set new)"
  proof (cases "is_noise val")
    case True
    then have "classify_value val st = Inr st \<and> tokens st = tokens st @ []
               \<and> (\<forall>h. Hash h \<notin> set [])"
      using c by simp
    then show ?thesis by blast
  next
    case False
    with c sp word_token_not_Hash [OF sp(3)] show ?thesis by auto
  qed
qed

theorem C6_hash_amended_witness:
  "''1A2B3C4D'' \<notin> KNOWN_GROUPS \<and> length ''1A2B3C4D'' = 8 \<and> set ''1A2B3C4D'' \<subseteq> set hexdigits
   \<and> classify_value ''1A2B3C4D'' st0 = Inr (st0\<lparr>tokens := tokens st0 @ [Hash ''1A2B3C4D'']\<rparr>)
   \<and> ''1A2B3C4G'' \<notin> KNOWN_GROUPS \<and> length ''1A2B3C4G'' = 8
   \<and> \<not> set ''1A2B3C4G'' \<subseteq> set hexdigits \<and> \<not> is_noise ''1A2B3C4G''
   \<and> classify_value ''1A2B3C4G'' st0 = split_path ''1A2B3C4G'' st0"
proof -
  have a: "''1A2B3C4D'' \<notin> KNOWN_GROUPS" "length ''1A2B3C4D'' = 8"
    "set ''1A2B3C4D'' \<subseteq> set hexdigits"
    by code_simp+
  have b: "''1A2B3C4G'' \<notin> KNOWN_GROUPS" "length ''1A2B3C4G'' = 8"
    "\<not> set ''1A2B3C4G'' \<subseteq> set hexdigits" "\<not> is_noise ''1A2B3C4G''"
    by code_simp+
  from C6_hash_amended [OF a(1,2), of st0] a
    C6_hash_amended [OF b(1,2), of st0] b
  show ?thesis by simp
qed


section \<open>The matcher on runs of one character class\<close>

definition chr_class :: "rx \<Rightarrow> (char \<Rightarrow> bool) \<Rightarrow> bool" where
  "chr_class X P = (\<forall>st. ms X st = step_chr P st)"

lemma chr_class_simps:
  "chr_class (Lit c) (\<lambda>x. x = c)" "chr_class (NotLit c) (\<lambda>x. x \<noteq> c)"
  "chr_class Dot (\<lambda>x. x \<noteq> newline)" "chr_class Digit isdigit_chr"
  by (simp_all add: chr_class_def ms.simps)

lemma upt_1_Suc_Suc: "[Suc 0..<Suc (Suc n)] = Suc 0 # map Suc [Suc 0..<Suc n]"
  by (simp add: map_Suc_upt upt_conv_Cons del: upt_Suc)

lemma upt_0_Suc: "[0..<Suc n] = 0 # map Suc [0..<n]"
  by (simp add: map_Suc_upt upt_conv_Cons del: upt_Suc)

lemma ms_Plus_chr:
  assumes "chr_class X P"
  shows "ms (Plus X) (p, s, g) =
           map (\<lambda>k. (p + k, drop k s, g)) (rev [Suc 0..<Suc (length (takeWhile P s))])"
proof (induction s arbitrary: p)
  case Nil
  with assms show ?case by (subst ms.simps) (simp add: chr_class_def step_chr_def)
next
  case (Cons c cs)
  show ?case
  proof (cases "P c")
    case True
    have "ms (Plus X) (p, c # cs, g) = ms (Plus X) (Suc p, cs, g) @ [(Suc p, cs, g)]"
      using assms True by (subst ms.simps) (simp add: chr_class_def step_chr_def shorter_def)
    also have "\<dots> = map (\<lambda>k. (p + k, drop k (c # cs), g))
                        (rev [Suc 0..<Suc (length (takeWhile P (c # cs)))])"
      using True unfolding Cons.IH
      by (simp add: upt_1_Suc_Suc rev_map comp_def del: upt_Suc)
    finally show ?thesis .
  next
    case False
    with assms show ?thesis by (subst ms.simps) (simp add: chr_class_def step_chr_def)
  qed
qed

lemma ms_LazyPlus_chr:
  assumes "chr_class X P"
  shows "ms (LazyPlus X) (p, s, g) =
           map (\<lambda>k. (p + k, drop k s, g)) [Suc 0..<Suc (length (takeWhile P s))]"
proof (induction s arbitrary: p)
  case Nil
  with assms show ?case by (subst ms.simps) (simp add: chr_class_def step_chr_def)
next
  case (Cons c cs)
  show ?case
  proof (cases "P c")
    case True
    have "ms (LazyPlus X) (p, c # cs, g) = (Suc p, cs, g) # ms (LazyPlus X) (Suc p, cs, g)"
      using assms True by (subst ms.simps) (simp add: chr_class_def step_chr_def shorter_def)
    also have "\<dots> = map (\<lambda>k. (p + k, drop k (c # cs), g))
                        [Suc 0..<Suc (length (takeWhile P (c # cs)))]"
      using True unfolding Cons.IH
      by (simp add: upt_1_Suc_Suc comp_def del: upt_Suc)
    finally show ?thesis .
  next
    case False
    with assms show ?thesis by (subst ms.simps) (simp add: chr_class_def step_chr_def)
  qed
qed

lemma ms_LazyStar_chr:
  assumes "chr_class X P"
  shows "ms (LazyStar X) (p, s, g) =
           map (\<lambda>k. (p + k, drop k s, g)) [0..<Suc (length (takeWhile P s))]"
proof (induction s arbitrary: p)
  case Nil
  with assms show ?case by (subst ms.simps) (simp add: chr_class_def step_chr_def)
next
  case (Cons c cs)
  show ?case
  proof (cases "P c")
    case True
    have "ms (LazyStar X) (p, c # cs, g) = (p, c # cs, g) # ms (LazyStar X) (Suc p, cs, g)"
      using assms True by (subst ms.simps) (simp add: chr_class_def step_chr_def shorter_def)
    also have "\<dots> = map (\<lambda>k. (p + k, drop k (c # cs), g))
                        [0..<Suc (length (takeWhile P (c # cs)))]"
      using True unfolding Cons.IH
      by (simp add: upt_0_Suc [of "Suc _"] comp_def del: upt_Suc)
    finally show ?thesis .
  next
    case False
    with assms show ?thesis by (subst ms.simps) (simp add: chr_class_def step_chr_def)
  qed
qed

lemma ms_lits:
  "s0 \<noteq> [] \<Longrightarrow> ms (lits s0) (p, s, g) =
     (if prefix s0 s then [(p + length s0, drop (length s0) s, g)] else [])"
proof (induction s0 arbitrary: p s)
  case Nil
  then show ?case by simp
next
  case (Cons c cs)
  show ?case
  proof (cases cs)
    case Nil
    then show ?thesis
      by (cases s) (auto simp: lits_def ms.simps step_chr_def)
  next
    case (Cons d ds)
    then have "lits (c # cs) = Seq (Lit c) (lits cs)"
      by (simp add: lits_def)
    with Cons.IH [of _ "tl s"] Cons show ?thesis
      by (cases s) (auto simp: ms.simps step_chr_def)
  qed
qed

lemma concat_greedy:
  assumes "\<And>k. Suc 0 \<le> k \<Longrightarrow> k < n \<Longrightarrow> f k = []"
  shows "concat (map f (rev [Suc 0..<Suc n])) = (if n = 0 then [] else f n)"
proof (cases n)
  case 0
  then show ?thesis by simp
next
  case (Suc m)
  have "concat (map f (rev [Suc 0..<Suc m])) = []"
    using assms Suc by auto
  with Suc show ?thesis by simp
qed

lemma takeWhile_holds: "k < length (takeWhile P xs) \<Longrightarrow> P (xs ! k)"
  by (metis nth_mem set_takeWhileD takeWhile_nth)

lemma drop_in_takeWhile:
  assumes "k < length (takeWhile P xs)"
  shows "\<exists>ys. drop k xs = (xs ! k) # ys \<and> P (xs ! k)"
proof -
  have "length (takeWhile P xs) \<le> length xs" by (rule length_takeWhile_le)
  with assms have "k < length xs" by simp
  then have "drop k xs = xs ! k # drop (Suc k) xs" by (simp add: Cons_nth_drop_Suc)
  with takeWhile_holds [OF assms] show ?thesis by blast
qed

section \<open>The tag pattern\<close>

text \<open>
  What \<^const>\<open>TAG_PATTERN\<close> matches at the start of a string: an opening bracket, the
  longest non-empty run without a closing bracket, and the closing bracket after it.
\<close>

definition match_tag :: "string \<Rightarrow> (string \<times> string) option" where
  "match_tag s =
     (case s of
        [] \<Rightarrow> None
      | c # r \<Rightarrow>
          if c = CHR ''['' \<and> takeWhile (\<lambda>x. x \<noteq> CHR '']'') r \<noteq> []
             \<and> dropWhile (\<lambda>x. x \<noteq> CHR '']'') r \<noteq> []
          then Some (CHR ''['' # takeWhile (\<lambda>x. x \<noteq> CHR '']'') r @ '']'',
                     tl (dropWhile (\<lambda>x. x \<noteq> CHR '']'') r))
          else None)"

lemma ms_Seq: "ms (Seq a b) st = concat (map (ms b) (ms a st))"
  by (simp add: ms.simps)

lemma ms_Lit: "ms (Lit c) (p, s, g) = (case s of [] \<Rightarrow> [] | x # xs \<Rightarrow> if x = c then [(Suc p, xs, g)] else [])"
  by (simp add: ms.simps step_chr_def)

lemma plus_then_lit:
  "ms (Seq (Plus (NotLit c)) (Lit c)) (p, r, g) =
     (if takeWhile (\<lambda>x. x \<noteq> c) r \<noteq> [] \<and> dropWhile (\<lambda>x. x \<noteq> c) r \<noteq> []
      then [(Suc (p + length (takeWhile (\<lambda>x. x \<noteq> c) r)), tl (dropWhile (\<lambda>x. x \<noteq> c) r), g)]
      else [])"
proof -
  let ?P = "\<lambda>x. x \<noteq> c"
  let ?n = "length (takeWhile ?P r)"
  let ?f = "\<lambda>k. ms (Lit c) (p + k, drop k r, g)"
  have short: "?f k = []" if "k < ?n" for k
    using drop_in_takeWhile [OF that] by (auto simp: ms_Lit)
  have "ms (Seq (Plus (NotLit c)) (Lit c)) (p, r, g) = concat (map ?f (rev [Suc 0..<Suc ?n]))"
    unfolding ms_Seq ms_Plus_chr [OF chr_class_simps(2)] map_map comp_def ..
  also have "\<dots> = (if ?n = 0 then [] else ?f ?n)"
    by (rule concat_greedy) (simp add: short)
  also have "\<dots> = (if takeWhile ?P r \<noteq> [] \<and> dropWhile ?P r \<noteq> []
      then [(Suc (p + ?n), tl (dropWhile ?P r), g)] else [])"
  proof (cases "dropWhile ?P r")
    case Nil
    then have "drop ?n r = []" by (simp only: dropWhile_eq_drop [symmetric])
    then show ?thesis unfolding Nil by (simp add: ms_Lit)
  next
    case (Cons d ds)
    then have "d = c" using hd_dropWhile [of ?P r] by auto
    with Cons have "drop ?n r = c # ds" by (simp only: dropWhile_eq_drop [symmetric])
    then show ?thesis unfolding Cons by (simp add: ms_Lit)
  qed
  finally show ?thesis .
qed

lemma ms_TAG_PATTERN:
  "ms TAG_PATTERN (p, s, g) =
     (case match_tag s of None \<Rightarrow> [] | Some (t, rest) \<Rightarrow> [(p + length t, rest, g)])"
  by (cases s) (simp_all add: TAG_PATTERN_def ms_Seq [of "Lit _"] ms_Lit plus_then_lit match_tag_def)

lemma match_tag_Some:
  assumes "match_tag s = Some (t, rest)"
  shows "s = t @ rest" and "length rest < length s"
    and "\<exists>v. t = CHR ''['' # v @ '']'' \<and> v \<noteq> [] \<and> CHR '']'' \<notin> set v"
proof -
  let ?P = "\<lambda>x. x \<noteq> CHR '']''"
  from assms obtain c r where s: "s = c # r"
    by (cases s) (simp_all add: match_tag_def)
  from assms have cond: "c = CHR ''['' \<and> takeWhile ?P r \<noteq> [] \<and> dropWhile ?P r \<noteq> []"
    unfolding s match_tag_def by (simp split: if_splits)
  with assms have t: "t = CHR ''['' # takeWhile ?P r @ '']''"
    and rest: "rest = tl (dropWhile ?P r)"
    unfolding s match_tag_def by simp_all
  from cond hd_dropWhile [of ?P r]
  have "dropWhile ?P r = CHR '']'' # rest"
    unfolding rest by (cases "dropWhile ?P r") auto
  then have "takeWhile ?P r @ CHR '']'' # rest = r"
    using takeWhile_dropWhile_id [of ?P r] by simp
  with s t cond show "s = t @ rest" by simp
  then show "length rest < length s" using t by simp
  have "CHR '']'' \<notin> set (takeWhile ?P r)"
    using set_takeWhileD by fastforce
  with cond t show "\<exists>v. t = CHR ''['' # v @ '']'' \<and> v \<noteq> [] \<and> CHR '']'' \<notin> set v"
    by blast
qed

text \<open>The tags that \<^const>\<open>findall\<close> lists, by a direct scan.\<close>

function tags :: "string \<Rightarrow> string list" where
  "tags s =
     (case match_tag s of
        Some (t, rest) \<Rightarrow> t # tags rest
      | None \<Rightarrow> (case s of [] \<Rightarrow> [] | c # cs \<Rightarrow> tags cs))"
  by pat_completeness auto
termination
  by (relation "measure length") (auto dest: match_tag_Some(2))

declare tags.simps [simp del]

lemma findall_from_tags: "findall_from TAG_PATTERN p s = tags s"
proof (induction s arbitrary: p rule: length_induct)
  case (1 s)
  show ?case
  proof (cases "match_tag s")
    case None
    then show ?thesis
      using 1 by (subst findall_from.simps, subst tags.simps)
        (simp add: ms_TAG_PATTERN split: list.splits)
  next
    case (Some a)
    obtain t rest where a: "a = (t, rest)" by (cases a)
    note m = match_tag_Some [OF Some [unfolded a]]
    from m(1) have "take (length s - length rest) s = t" by simp
    with Some a m(2) 1 show ?thesis
      by (subst findall_from.simps, subst tags.simps) (simp add: ms_TAG_PATTERN)
  qed
qed

section \<open>The loop over the tags never fails to cut the string\<close>

lemma match_tag_not_bracket: "c \<noteq> CHR ''['' \<Longrightarrow> match_tag (c # cs) = None"
  by (simp add: match_tag_def)

lemma tags_Nil: "tags [] = []"
  by (subst tags.simps) (simp add: match_tag_def)

lemma tags_skip: "match_tag (c # cs) = None \<Longrightarrow> tags (c # cs) = tags cs"
  by (subst tags.simps) simp

lemma tags_lstrip: "tags (lstrip s) = tags s"
proof (induction s)
  case Nil
  then show ?case by (simp add: lstrip_def)
next
  case (Cons c cs)
  show ?case
  proof (cases "isspace_chr c")
    case True
    then have "c \<noteq> CHR ''[''" by (auto simp: isspace_chr_def)
    then have "tags (c # cs) = tags cs"
      by (simp add: tags_skip match_tag_not_bracket)
    with True Cons show ?thesis by (simp add: lstrip_def)
  next
    case False
    then show ?thesis by (simp add: lstrip_def)
  qed
qed

lemma tag_prefix_match:
  assumes "t = CHR ''['' # v @ '']''" and "v \<noteq> []" and "CHR '']'' \<notin> set v"
    and "prefix t s"
  shows "match_tag s = Some (t, drop (length t) s)"
proof -
  let ?P = "\<lambda>x. x \<noteq> CHR '']''"
  from assms(4) obtain u where s: "s = t @ u" by (auto simp: prefix_def)
  have all: "\<forall>x\<in>set v. ?P x" using assms(3) by auto
  have tw: "takeWhile ?P (v @ CHR '']'' # u) = v"
    using all by (simp add: takeWhile_append2)
  have dw: "dropWhile ?P (v @ CHR '']'' # u) = CHR '']'' # u"
    using all by (simp add: dropWhile_append2)
  show ?thesis
    unfolding s assms(1) match_tag_def using assms(2) by (simp add: tw dw)
qed

lemma find_sub_first:
  assumes "t \<noteq> []" and "\<forall>i<length pre. \<not> prefix t (drop i (pre @ t @ post))"
  shows "find_sub t (pre @ t @ post) = Some (pre, post)"
  using assms(2)
proof (induction pre)
  case Nil
  from assms(1) obtain x xs where t: "t = x # xs" by (cases t) auto
  show ?case unfolding t by simp
next
  case (Cons c pre)
  from Cons.prems have "\<not> prefix t (drop 0 ((c # pre) @ t @ post))" by blast
  then have np: "\<not> prefix t (c # (pre @ t @ post))" by simp
  have "\<forall>i<length pre. \<not> prefix t (drop i (pre @ t @ post))"
  proof (intro allI impI)
    fix i assume "i < length pre"
    then have "Suc i < length (c # pre)" by simp
    with Cons.prems have "\<not> prefix t (drop (Suc i) ((c # pre) @ t @ post))" by blast
    then show "\<not> prefix t (drop i (pre @ t @ post))" by simp
  qed
  from Cons.IH [OF this] np show ?case by simp
qed

lemma tag_step_found:
  assumes t: "t = CHR ''['' # v @ '']''" "v \<noteq> []" "CHR '']'' \<notin> set v"
    and str: "string st = pre @ t @ post"
    and none: "\<forall>i<length pre. match_tag (drop i (pre @ t @ post)) = None"
  shows "\<exists>st'. tag_step st t = Inr st' \<and> string st' = lstrip post"
proof -
  obtain st1 where c: "classify_value (butlast (tl t)) st = Inr st1"
    and s1: "string st1 = string st"
    using classify_value_tokens by blast
  have "\<forall>i<length pre. \<not> prefix t (drop i (pre @ t @ post))"
  proof (intro allI impI notI)
    fix i assume "i < length pre" and "prefix t (drop i (pre @ t @ post))"
    from tag_prefix_match [OF t this(2)] none this(1) show False by simp
  qed
  moreover have "t \<noteq> []" using t(1) by simp
  ultimately have "find_sub t (pre @ t @ post) = Some (pre, post)"
    by (rule find_sub_first [rotated])
  with \<open>t \<noteq> []\<close> have "split_once t (string st1) = Inr [pre, post]"
    by (simp add: split_once_def s1 str)
  with c show ?thesis by (simp add: tag_step_def)
qed

lemma tag_loop_total_aux:
  "string st = pre @ u \<Longrightarrow> \<forall>i<length pre. match_tag (drop i (pre @ u)) = None
     \<Longrightarrow> \<exists>st'. tag_loop st (tags u) = Inr st'"
proof (induction u arbitrary: st pre rule: length_induct)
  case (1 u)
  show ?case
  proof (cases "match_tag u")
    case None
    show ?thesis
    proof (cases u)
      case Nil
      then show ?thesis by (simp add: tags_Nil)
    next
      case (Cons c cs)
      have str: "string st = (pre @ [c]) @ cs" using "1.prems"(1) Cons by simp
      have "\<forall>i<length (pre @ [c]). match_tag (drop i ((pre @ [c]) @ cs)) = None"
      proof (intro allI impI)
        fix i assume "i < length (pre @ [c])"
        then consider "i < length pre" | "i = length pre" by fastforce
        then show "match_tag (drop i ((pre @ [c]) @ cs)) = None"
        proof cases
          case 1
          with "1.prems"(2) Cons show ?thesis by simp
        next
          case 2
          with None Cons show ?thesis by simp
        qed
      qed
      with "1.IH" str Cons have "\<exists>st'. tag_loop st (tags cs) = Inr st'"
        by (metis length_Cons lessI)
      with None Cons show ?thesis by (simp add: tags_skip)
    qed
  next
    case (Some a)
    obtain t rest where a: "a = (t, rest)" by (cases a)
    note m = match_tag_Some [OF Some [unfolded a]]
    from m(3) obtain v where t: "t = CHR ''['' # v @ '']''" "v \<noteq> []" "CHR '']'' \<notin> set v"
      by blast
    from tag_step_found [OF t, of st pre rest] "1.prems" m(1)
    obtain st1 where s1: "tag_step st t = Inr st1" "string st1 = lstrip rest"
      by auto
    have "length (lstrip rest) < length u"
      using m(2) length_dropWhile_le [of isspace_chr rest] by (simp add: lstrip_def)
    with "1.IH" s1(2) have "\<exists>st'. tag_loop st1 (tags (lstrip rest)) = Inr st'"
      by (metis append_Nil length_0_conv less_nat_zero_code list.size(3))
    then have "\<exists>st'. tag_loop st1 (tags rest) = Inr st'"
      by (simp add: tags_lstrip)
    moreover have "tags u = t # tags rest"
      by (subst tags.simps) (simp add: Some a)
    ultimately show ?thesis by (simp add: s1(1))
  qed
qed

lemma tag_loop_total:
  "string st = s \<Longrightarrow> \<exists>st'. tag_loop st (findall TAG_PATTERN s) = Inr st'"
  using tag_loop_total_aux [of st "[]" s] by (simp add: findall_def findall_from_tags)

section \<open>The episode pattern\<close>

text \<open>The tails of \<^const>\<open>EPISODE_PATTERN\<close>, from its end.\<close>

definition SPECIAL_END :: rx where
  "SPECIAL_END = Seq (Opt (Group ''special_tag'' (lits '' END''))) Eol"

definition VERSION_END :: rx where
  "VERSION_END = Seq (Opt (Group ''version'' (seq [Lit (CHR ''v''), Plus Digit]))) SPECIAL_END"

definition SECOND_END :: rx where
  "SECOND_END =
     Seq (Opt (Group ''3'' (seq [Lit (CHR ''+''), Opt (Lit (CHR ''E'')),
                                 Group ''second_episode'' (Plus Digit)]))) VERSION_END"

definition EPISODE_END :: rx where
  "EPISODE_END = Seq (Group ''episode'' (Plus Digit)) SECOND_END"

definition EPISODE_TAIL :: rx where
  "EPISODE_TAIL = Seq (lits '' - '') (Seq (Opt (Lit (CHR ''E''))) EPISODE_END)"

lemma EPISODE_PATTERN_eq:
  "EPISODE_PATTERN = Seq Bol (Seq (Group ''name'' (LazyPlus Dot)) EPISODE_TAIL)"
  by (simp add: EPISODE_PATTERN_def EPISODE_TAIL_def EPISODE_END_def SECOND_END_def
      VERSION_END_def SPECIAL_END_def)

lemma ms_Opt_Seq: "ms (Seq (Opt a) b) st = concat (map (ms b) (ms a st)) @ ms b st"
  by (simp add: ms.simps)

lemma ms_Group: "ms (Group n a) st = map (capture n st) (ms a st)"
  by (simp add: ms.simps)

lemma ms_Eol: "ms Eol (p, s, g) = (if s = [] \<or> s = [newline] then [(p, s, g)] else [])"
  by (simp add: ms.simps)

lemma capture_drop:
  "k \<le> length s \<Longrightarrow> capture n (p, s, g) (q, drop k s, h) = (q, drop k s, (n, take k s) # h)"
  by (simp add: capture_def)

lemma ms_Plus_Digit:
  "ms (Plus Digit) (p, s, g) =
     map (\<lambda>k. (p + k, drop k s, g)) (rev [Suc 0..<Suc (length (takeWhile isdigit_chr s))])"
  by (rule ms_Plus_chr [OF chr_class_simps(4)])

lemma greedy_digits_then:
  assumes "\<And>q c cs h. isdigit_chr c \<Longrightarrow> ms K (q, c # cs, h) = []"
  shows "concat (map (\<lambda>k. ms K (F k, drop k r, G k))
                   (rev [Suc 0..<Suc (length (takeWhile isdigit_chr r))])) =
         (if takeWhile isdigit_chr r = [] then []
          else ms K (F (length (takeWhile isdigit_chr r)), dropWhile isdigit_chr r,
                     G (length (takeWhile isdigit_chr r))))"
proof -
  let ?n = "length (takeWhile isdigit_chr r)"
  have "concat (map (\<lambda>k. ms K (F k, drop k r, G k)) (rev [Suc 0..<Suc ?n])) =
        (if ?n = 0 then [] else ms K (F ?n, drop ?n r, G ?n))"
  proof (rule concat_greedy)
    fix k assume "k < ?n"
    from drop_in_takeWhile [OF this] assms show "ms K (F k, drop k r, G k) = []"
      by auto
  qed
  then show ?thesis by (simp add: dropWhile_eq_drop)
qed

text \<open>A group around a run of digits, followed by something that refuses a digit.\<close>

lemma group_digits_then:
  assumes "\<And>q c cs h. isdigit_chr c \<Longrightarrow> ms K (q, c # cs, h) = []"
  shows "concat (map (ms K) (ms (Group n (Plus Digit)) (p, s, g))) =
         (if takeWhile isdigit_chr s = [] then []
          else ms K (p + length (takeWhile isdigit_chr s), dropWhile isdigit_chr s,
                     (n, takeWhile isdigit_chr s) # g))"
proof -
  let ?n = "length (takeWhile isdigit_chr s)"
  have le: "k \<le> length s" if "k \<in> set (rev [Suc 0..<Suc ?n])" for k
    using that length_takeWhile_le [of isdigit_chr s] by auto
  have "concat (map (ms K) (ms (Group n (Plus Digit)) (p, s, g))) =
        concat (map (\<lambda>k. ms K (p + k, drop k s, (n, take k s) # g)) (rev [Suc 0..<Suc ?n]))"
    unfolding ms_Group ms_Plus_Digit map_map comp_def
    by (rule arg_cong [where f = concat], rule map_cong [OF refl]) (simp add: capture_drop le)
  also have "\<dots> = (if takeWhile isdigit_chr s = [] then []
          else ms K (p + ?n, dropWhile isdigit_chr s, (n, take ?n s) # g))"
    by (rule greedy_digits_then [OF assms])
  finally show ?thesis by (simp add: takeWhile_eq_take [symmetric])
qed

lemma ms_SPECIAL_END:
  "ms SPECIAL_END (p, s, g) =
     (if prefix '' END'' s
      then ms Eol (p + 4, drop 4 s, (''special_tag'', '' END'') # g)
      else ms Eol (p, s, g))"
proof (cases "prefix '' END'' s")
  case True
  then obtain r where s: "s = '' END'' @ r" by (auto simp: prefix_def)
  show ?thesis
    unfolding SPECIAL_END_def ms_Opt_Seq ms_Group
    by (simp add: ms_lits s capture_def ms_Eol)
next
  case False
  then show ?thesis
    unfolding SPECIAL_END_def ms_Opt_Seq ms_Group by (simp add: ms_lits)
qed

lemma SPECIAL_END_first:
  "c \<noteq> CHR '' '' \<Longrightarrow> c \<noteq> newline \<Longrightarrow> ms SPECIAL_END (q, c # cs, h) = []"
  by (simp add: ms_SPECIAL_END ms_Eol)

lemma digit_not_special: "isdigit_chr c \<Longrightarrow> c \<noteq> CHR '' '' \<and> c \<noteq> newline \<and> c \<noteq> CHR ''v''
    \<and> c \<noteq> CHR ''+'' \<and> c \<noteq> CHR ''E'' \<and> c \<noteq> CHR ''-''"
  by (auto simp: isdigit_chr_def newline_def)

lemma capture_digits:
  "map (capture n (p, pre @ r, g))
     (map (\<lambda>k. (q + k, drop k r, h k)) (rev [Suc 0..<Suc (length (takeWhile isdigit_chr r))])) =
   map (\<lambda>k. (q + k, drop k r, (n, pre @ take k r) # h k))
     (rev [Suc 0..<Suc (length (takeWhile isdigit_chr r))])"
proof -
  have "capture n (p, pre @ r, g) (q + k, drop k r, h k) =
        (q + k, drop k r, (n, pre @ take k r) # h k)"
    if "k \<in> set (rev [Suc 0..<Suc (length (takeWhile isdigit_chr r))])" for k
  proof -
    from that length_takeWhile_le [of isdigit_chr r] have "k \<le> length r" by auto
    then show ?thesis by (simp add: capture_def)
  qed
  then show ?thesis unfolding map_map comp_def by (intro map_cong refl)
qed

lemma take_takeWhile: "take (length (takeWhile P xs)) xs = takeWhile P xs"
  by (simp add: takeWhile_eq_take [symmetric])

lemma ms_VERSION_END:
  "ms VERSION_END (p, s, g) =
     (case s of
        [] \<Rightarrow> ms SPECIAL_END (p, s, g)
      | c # r \<Rightarrow>
          if c = CHR ''v'' then
            (if takeWhile isdigit_chr r = [] then []
             else ms SPECIAL_END (Suc p + length (takeWhile isdigit_chr r), dropWhile isdigit_chr r,
                                  (''version'', CHR ''v'' # takeWhile isdigit_chr r) # g))
          else ms SPECIAL_END (p, s, g))"
proof (cases s)
  case Nil
  then show ?thesis
    unfolding VERSION_END_def ms_Opt_Seq ms_Group by (simp add: ms_Seq ms_Lit)
next
  case (Cons c r)
  show ?thesis
  proof (cases "c = CHR ''v''")
    case True
    let ?L = "rev [Suc 0..<Suc (length (takeWhile isdigit_chr r))]"
    have inner: "ms (seq [Lit (CHR ''v''), Plus Digit]) (p, ''v'' @ r, g) =
          map (\<lambda>k. (Suc p + k, drop k r, g)) ?L"
      by (simp add: ms_Seq ms_Lit ms_Plus_Digit)
    have fails: "ms SPECIAL_END (q, d # cs, h) = []" if "isdigit_chr d" for q d cs h
      using digit_not_special [OF that] by (simp add: SPECIAL_END_first)
    have skip: "ms SPECIAL_END (p, ''v'' @ r, g) = []"
      by (simp add: SPECIAL_END_first newline_def)
    have "ms (Group ''version'' (seq [Lit (CHR ''v''), Plus Digit])) (p, ''v'' @ r, g) =
          map (\<lambda>k. (Suc p + k, drop k r, (''version'', ''v'' @ take k r) # g)) ?L"
      unfolding ms_Group inner by (rule capture_digits)
    then have "ms VERSION_END (p, ''v'' @ r, g) =
          concat (map (\<lambda>k. ms SPECIAL_END (Suc p + k, drop k r, (''version'', ''v'' @ take k r) # g))
                    ?L)"
      unfolding VERSION_END_def ms_Opt_Seq skip by (simp add: comp_def)
    also note greedy_digits_then [of SPECIAL_END "\<lambda>k. Suc p + k" r
        "\<lambda>k. (''version'', ''v'' @ take k r) # g", OF fails]
    finally show ?thesis using Cons True by (simp add: take_takeWhile)
  next
    case False
    with Cons show ?thesis
      unfolding VERSION_END_def ms_Opt_Seq ms_Group by (simp add: ms_Seq ms_Lit)
  qed
qed

lemma VERSION_END_first:
  "c \<noteq> CHR ''v'' \<Longrightarrow> c \<noteq> CHR '' '' \<Longrightarrow> c \<noteq> newline \<Longrightarrow> ms VERSION_END (q, c # cs, h) = []"
  by (simp add: ms_VERSION_END SPECIAL_END_first)

definition skip_E :: "string \<Rightarrow> string" where
  "skip_E r = (case r of [] \<Rightarrow> [] | c # cs \<Rightarrow> if c = CHR ''E'' then cs else c # cs)"

lemma E_not_digit: "\<not> isdigit_chr (CHR ''E'')"
  by (simp add: isdigit_chr_def)

lemma ms_Group_digits:
  "ms (Group n (Plus Digit)) (p, r, g) =
     map (\<lambda>k. (p + k, drop k r, (n, take k r) # g))
       (rev [Suc 0..<Suc (length (takeWhile isdigit_chr r))])"
  unfolding ms_Group ms_Plus_Digit
  using capture_digits [of n p "[]" r g p "\<lambda>k. g"] by simp

lemma ms_Opt_E_digits:
  "ms (Seq (Opt (Lit (CHR ''E''))) (Group n (Plus Digit))) (p, r, g) =
     map (\<lambda>k. (p + (length r - length (skip_E r)) + k, drop k (skip_E r),
                (n, take k (skip_E r)) # g))
       (rev [Suc 0..<Suc (length (takeWhile isdigit_chr (skip_E r)))])"
proof (cases "\<exists>cs. r = CHR ''E'' # cs")
  case True
  then obtain cs where r: "r = CHR ''E'' # cs" by blast
  have "ms (Group n (Plus Digit)) (p, r, g) = []"
    unfolding ms_Group_digits r by (simp add: E_not_digit)
  then show ?thesis
    unfolding ms_Opt_Seq
    by (simp add: r ms_Lit skip_E_def ms_Group_digits)
next
  case False
  then have "ms (Lit (CHR ''E'')) (p, r, g) = []" and "skip_E r = r"
    by (auto simp: ms_Lit skip_E_def split: list.splits)
  then show ?thesis
    unfolding ms_Opt_Seq by (simp add: ms_Group_digits)
qed

lemma skip_E_suffix: "take (length r - length (skip_E r)) r @ skip_E r = r"
  by (cases r) (auto simp: skip_E_def)

lemma ms_SECOND_END:
  "ms SECOND_END (p, s, g) =
     (case s of
        [] \<Rightarrow> ms VERSION_END (p, s, g)
      | c # r \<Rightarrow>
          if c = CHR ''+'' then
            (if takeWhile isdigit_chr (skip_E r) = [] then []
             else ms VERSION_END
                    (Suc p + (length r - length (skip_E r)) + length (takeWhile isdigit_chr (skip_E r)),
                     dropWhile isdigit_chr (skip_E r),
                     (''3'', (''+'' @ take (length r - length (skip_E r)) r) @
                              takeWhile isdigit_chr (skip_E r)) #
                     (''second_episode'', takeWhile isdigit_chr (skip_E r)) # g))
          else ms VERSION_END (p, s, g))"
proof (cases s)
  case Nil
  then show ?thesis
    unfolding SECOND_END_def ms_Opt_Seq ms_Group by (simp add: ms_Seq ms_Lit)
next
  case (Cons c r)
  show ?thesis
  proof (cases "c = CHR ''+''")
    case True
    let ?r2 = "skip_E r"
    let ?pre = "''+'' @ take (length r - length ?r2) r"
    let ?L = "rev [Suc 0..<Suc (length (takeWhile isdigit_chr ?r2))]"
    let ?q = "Suc p + (length r - length ?r2)"
    have s: "''+'' @ r = ?pre @ ?r2"
      by (simp add: skip_E_suffix)
    have inner: "ms (seq [Lit (CHR ''+''), Opt (Lit (CHR ''E'')), Group ''second_episode'' (Plus Digit)])
                   (p, ''+'' @ r, g) =
          map (\<lambda>k. (?q + k, drop k ?r2, (''second_episode'', take k ?r2) # g)) ?L"
      by (simp add: ms_Seq [of "Lit _"] ms_Lit ms_Opt_E_digits)
    have fails: "ms VERSION_END (q, d # cs, h) = []" if "isdigit_chr d" for q d cs h
      using digit_not_special [OF that] by (simp add: VERSION_END_first)
    have skip: "ms VERSION_END (p, ''+'' @ r, g) = []"
      by (simp add: VERSION_END_first newline_def)
    have "ms (Group ''3'' (seq [Lit (CHR ''+''), Opt (Lit (CHR ''E'')),
                                Group ''second_episode'' (Plus Digit)])) (p, ?pre @ ?r2, g) =
          map (\<lambda>k. (?q + k, drop k ?r2,
                     (''3'', ?pre @ take k ?r2) # (''second_episode'', take k ?r2) # g)) ?L"
      unfolding ms_Group inner [unfolded s] by (rule capture_digits)
    then have "ms SECOND_END (p, ''+'' @ r, g) =
          concat (map (\<lambda>k. ms VERSION_END (?q + k, drop k ?r2,
                     (''3'', ?pre @ take k ?r2) # (''second_episode'', take k ?r2) # g)) ?L)"
      unfolding SECOND_END_def ms_Opt_Seq skip s [symmetric] by (simp add: comp_def)
    also note greedy_digits_then [of VERSION_END "\<lambda>k. ?q + k" ?r2
        "\<lambda>k. (''3'', ?pre @ take k ?r2) # (''second_episode'', take k ?r2) # g", OF fails]
    finally show ?thesis using Cons True by (simp add: take_takeWhile)
  next
    case False
    with Cons show ?thesis
      unfolding SECOND_END_def ms_Opt_Seq ms_Group by (simp add: ms_Seq [of "Lit _"] ms_Lit)
  qed
qed

lemma SECOND_END_first:
  "c \<noteq> CHR ''+'' \<Longrightarrow> c \<noteq> CHR ''v'' \<Longrightarrow> c \<noteq> CHR '' '' \<Longrightarrow> c \<noteq> newline
     \<Longrightarrow> ms SECOND_END (q, c # cs, h) = []"
  by (simp add: ms_SECOND_END VERSION_END_first)

lemma ms_EPISODE_END:
  "ms EPISODE_END (p, s, g) =
     (if takeWhile isdigit_chr s = [] then []
      else ms SECOND_END (p + length (takeWhile isdigit_chr s), dropWhile isdigit_chr s,
                          (''episode'', takeWhile isdigit_chr s) # g))"
proof -
  have fails: "ms SECOND_END (q, d # cs, h) = []" if "isdigit_chr d" for q d cs h
    using digit_not_special [OF that] by (simp add: SECOND_END_first)
  show ?thesis
    unfolding EPISODE_END_def ms_Seq by (rule group_digits_then [OF fails])
qed

lemma EPISODE_END_first: "\<not> isdigit_chr c \<Longrightarrow> ms EPISODE_END (q, c # cs, h) = []"
  by (simp add: ms_EPISODE_END)

lemma ms_EPISODE_TAIL:
  "ms EPISODE_TAIL (p, s, g) =
     (if prefix '' - '' s
      then ms EPISODE_END (p + 3 + (length (drop 3 s) - length (skip_E (drop 3 s))),
                           skip_E (drop 3 s), g)
      else [])"
proof -
  have "ms (Seq (Opt (Lit (CHR ''E''))) EPISODE_END) (q, r, g) =
        ms EPISODE_END (q + (length r - length (skip_E r)), skip_E r, g)" for q r
  proof (cases "\<exists>cs. r = CHR ''E'' # cs")
    case True
    then obtain cs where r: "r = CHR ''E'' # cs" by blast
    show ?thesis
      unfolding ms_Opt_Seq r
      by (simp add: ms_Lit skip_E_def EPISODE_END_first E_not_digit)
  next
    case False
    then have "ms (Lit (CHR ''E'')) (q, r, g) = []" and "skip_E r = r"
      by (auto simp: ms_Lit skip_E_def split: list.splits)
    then show ?thesis unfolding ms_Opt_Seq by simp
  qed
  then show ?thesis
    unfolding EPISODE_TAIL_def ms_Seq [of "lits _"] by (simp add: ms_lits numeral_3_eq_3)
qed

text \<open>
  Each tail matches in at most one way; what it accepts, and the two episode groups it
  captures, are computed by the direct functions below.
\<close>

definition is_end :: "string \<Rightarrow> bool" where
  "is_end s = (s = [] \<or> s = [newline])"

definition special_ok :: "string \<Rightarrow> bool" where
  "special_ok s = (if prefix '' END'' s then is_end (drop 4 s) else is_end s)"

definition version_ok :: "string \<Rightarrow> bool" where
  "version_ok s =
     (case s of
        [] \<Rightarrow> special_ok s
      | c # r \<Rightarrow>
          if c = CHR ''v''
          then takeWhile isdigit_chr r \<noteq> [] \<and> special_ok (dropWhile isdigit_chr r)
          else special_ok s)"

definition second_parse :: "string \<Rightarrow> string option option" where
  "second_parse s =
     (case s of
        [] \<Rightarrow> if version_ok s then Some None else None
      | c # r \<Rightarrow>
          if c = CHR ''+''
          then (if takeWhile isdigit_chr (skip_E r) \<noteq> []
                   \<and> version_ok (dropWhile isdigit_chr (skip_E r))
                then Some (Some (takeWhile isdigit_chr (skip_E r))) else None)
          else if version_ok s then Some None else None)"

definition episode_parse :: "string \<Rightarrow> (string \<times> string option) option" where
  "episode_parse s =
     (if takeWhile isdigit_chr s = [] then None
      else (case second_parse (dropWhile isdigit_chr s) of
              None \<Rightarrow> None
            | Some sec \<Rightarrow> Some (takeWhile isdigit_chr s, sec)))"

definition tail_parse :: "string \<Rightarrow> (string \<times> string option) option" where
  "tail_parse s = (if prefix '' - '' s then episode_parse (skip_E (drop 3 s)) else None)"

definition caps :: "groups \<Rightarrow> string option \<times> string option \<times> string option" where
  "caps d = (map_of d ''name'', map_of d ''episode'', map_of d ''second_episode'')"

lemma caps_Nil: "caps [] = (None, None, None)"
  by (simp add: caps_def)

lemma SPECIAL_END_parse:
  "\<exists>q rest new. ms SPECIAL_END (p, s, g) = (if special_ok s then [(q, rest, new @ g)] else [])
      \<and> caps new = (None, None, None)"
proof (cases "prefix '' END'' s")
  case True
  then have "ms SPECIAL_END (p, s, g) =
      (if special_ok s then [(p + 4, drop 4 s, [(''special_tag'', '' END'')] @ g)] else [])"
    by (simp add: ms_SPECIAL_END ms_Eol special_ok_def is_end_def)
  moreover have "caps [(''special_tag'', '' END'')] = (None, None, None)"
    by (simp add: caps_def)
  ultimately show ?thesis by blast
next
  case False
  then have "ms SPECIAL_END (p, s, g) = (if special_ok s then [(p, s, [] @ g)] else [])"
    by (simp add: ms_SPECIAL_END ms_Eol special_ok_def is_end_def)
  with caps_Nil show ?thesis by blast
qed

lemma VERSION_END_parse:
  "\<exists>q rest new. ms VERSION_END (p, s, g) = (if version_ok s then [(q, rest, new @ g)] else [])
      \<and> caps new = (None, None, None)"
proof (cases "\<exists>r. s = CHR ''v'' # r \<and> takeWhile isdigit_chr r \<noteq> []")
  case True
  then obtain r where s: "s = CHR ''v'' # r" and d: "takeWhile isdigit_chr r \<noteq> []" by blast
  let ?g = "(''version'', CHR ''v'' # takeWhile isdigit_chr r) # g"
  obtain q rest new where
    "ms SPECIAL_END (Suc p + length (takeWhile isdigit_chr r), dropWhile isdigit_chr r, ?g) =
       (if special_ok (dropWhile isdigit_chr r) then [(q, rest, new @ ?g)] else [])"
    and c: "caps new = (None, None, None)"
    using SPECIAL_END_parse by blast
  then have "ms VERSION_END (p, s, g) =
      (if version_ok s
       then [(q, rest, (new @ [(''version'', CHR ''v'' # takeWhile isdigit_chr r)]) @ g)] else [])"
    using d by (simp add: ms_VERSION_END s version_ok_def)
  moreover from c have "caps (new @ [(''version'', CHR ''v'' # takeWhile isdigit_chr r)])
      = (None, None, None)"
    by (simp add: caps_def map_add_def)
  ultimately show ?thesis by blast
next
  case False
  show ?thesis
  proof (cases "\<exists>r. s = CHR ''v'' # r")
    case True
    with False have "ms VERSION_END (p, s, g) = (if version_ok s then [(p, s, [] @ g)] else [])"
      by (auto simp: ms_VERSION_END version_ok_def)
    with caps_Nil show ?thesis by blast
  next
    case False
    then have "ms VERSION_END (p, s, g) = ms SPECIAL_END (p, s, g)"
      and "version_ok s = special_ok s"
      by (auto simp: ms_VERSION_END version_ok_def split: list.splits)
    with SPECIAL_END_parse [of p s g] show ?thesis by simp
  qed
qed

lemma SECOND_END_parse:
  "\<exists>q rest new. ms SECOND_END (p, s, g) =
        (case second_parse s of None \<Rightarrow> [] | Some sec \<Rightarrow> [(q, rest, new @ g)])
      \<and> (case second_parse s of None \<Rightarrow> True | Some sec \<Rightarrow> caps new = (None, None, sec))"
proof (cases "\<exists>r. s = CHR ''+'' # r")
  case True
  then obtain r where s: "s = CHR ''+'' # r" by blast
  show ?thesis
  proof (cases "takeWhile isdigit_chr (skip_E r) = []")
    case True
    with s have "ms SECOND_END (p, s, g) = []" and "second_parse s = None"
      by (simp_all add: ms_SECOND_END second_parse_def)
    then show ?thesis by simp
  next
    case False
    let ?d = "takeWhile isdigit_chr (skip_E r)"
    let ?new = "[(''3'', (''+'' @ take (length r - length (skip_E r)) r) @ ?d),
                 (''second_episode'', ?d)]"
    obtain q rest new where
      "ms VERSION_END (Suc p + (length r - length (skip_E r)) + length ?d,
                       dropWhile isdigit_chr (skip_E r), ?new @ g) =
         (if version_ok (dropWhile isdigit_chr (skip_E r)) then [(q, rest, new @ ?new @ g)] else [])"
      and c: "caps new = (None, None, None)"
      using VERSION_END_parse by blast
    then have "ms SECOND_END (p, s, g) =
        (case second_parse s of None \<Rightarrow> [] | Some sec \<Rightarrow> [(q, rest, (new @ ?new) @ g)])"
      using False by (simp add: ms_SECOND_END s second_parse_def)
    moreover from c have "caps (new @ ?new) = (None, None, Some ?d)"
      by (simp add: caps_def map_add_def)
    then have "case second_parse s of None \<Rightarrow> True
               | Some sec \<Rightarrow> caps (new @ ?new) = (None, None, sec)"
      using False by (simp add: s second_parse_def)
    ultimately show ?thesis by blast
  qed
next
  case False
  then have "ms SECOND_END (p, s, g) = ms VERSION_END (p, s, g)"
    and "second_parse s = (if version_ok s then Some None else None)"
    by (auto simp: ms_SECOND_END second_parse_def split: list.splits)
  with VERSION_END_parse [of p s g] show ?thesis by auto
qed

lemma EPISODE_END_parse:
  "\<exists>q rest new. ms EPISODE_END (p, s, g) =
        (case episode_parse s of None \<Rightarrow> [] | Some r \<Rightarrow> [(q, rest, new @ g)])
      \<and> (case episode_parse s of None \<Rightarrow> True
          | Some (ep, sec) \<Rightarrow> caps new = (None, Some ep, sec))"
proof (cases "takeWhile isdigit_chr s = []")
  case True
  then show ?thesis by (simp add: ms_EPISODE_END episode_parse_def)
next
  case False
  let ?d = "takeWhile isdigit_chr s"
  obtain q rest new where
    m: "ms SECOND_END (p + length ?d, dropWhile isdigit_chr s, [(''episode'', ?d)] @ g) =
       (case second_parse (dropWhile isdigit_chr s) of None \<Rightarrow> []
        | Some sec \<Rightarrow> [(q, rest, new @ [(''episode'', ?d)] @ g)])"
    and c: "case second_parse (dropWhile isdigit_chr s) of None \<Rightarrow> True
            | Some sec \<Rightarrow> caps new = (None, None, sec)"
    using SECOND_END_parse by blast
  have "ms EPISODE_END (p, s, g) =
        (case episode_parse s of None \<Rightarrow> [] | Some r \<Rightarrow> [(q, rest, (new @ [(''episode'', ?d)]) @ g)])"
    using False m by (simp add: ms_EPISODE_END episode_parse_def split: option.splits)
  moreover have "case episode_parse s of None \<Rightarrow> True
          | Some (ep, sec) \<Rightarrow> caps (new @ [(''episode'', ?d)]) = (None, Some ep, sec)"
    using False c by (auto simp: episode_parse_def caps_def map_add_def split: option.splits)
  ultimately show ?thesis by blast
qed

lemma EPISODE_TAIL_parse:
  "\<exists>q rest new. ms EPISODE_TAIL (p, s, g) =
        (case tail_parse s of None \<Rightarrow> [] | Some r \<Rightarrow> [(q, rest, new @ g)])
      \<and> (case tail_parse s of None \<Rightarrow> True
          | Some (ep, sec) \<Rightarrow> caps new = (None, Some ep, sec))"
proof (cases "prefix '' - '' s")
  case True
  with EPISODE_END_parse [of "p + 3 + (length (drop 3 s) - length (skip_E (drop 3 s)))"
      "skip_E (drop 3 s)" g]
  show ?thesis by (simp add: ms_EPISODE_TAIL tail_parse_def)
next
  case False
  then show ?thesis by (simp add: ms_EPISODE_TAIL tail_parse_def)
qed

lemma ms_Bol_Seq: "ms (Seq Bol r) (0, s, g) = ms r (0, s, g)"
  by (simp add: ms.simps)

lemma ms_name_group:
  "ms (Group n (LazyPlus Dot)) (p, s, g) =
     map (\<lambda>k. (p + k, drop k s, (n, take k s) # g))
       [Suc 0..<Suc (length (takeWhile (\<lambda>x. x \<noteq> newline) s))]"
proof -
  let ?L = "[Suc 0..<Suc (length (takeWhile (\<lambda>x. x \<noteq> newline) s))]"
  have "capture n (p, s, g) (p + k, drop k s, g) = (p + k, drop k s, (n, take k s) # g)"
    if "k \<in> set ?L" for k
  proof -
    from that length_takeWhile_le [of "\<lambda>x. x \<noteq> newline" s] have "k \<le> length s" by auto
    then show ?thesis by (simp add: capture_def)
  qed
  then show ?thesis
    unfolding ms_Group ms_LazyPlus_chr [OF chr_class_simps(3)] map_map comp_def
    by (intro map_cong refl)
qed

lemma ms_EPISODE_PATTERN:
  "ms EPISODE_PATTERN (0, s, []) =
     concat (map (\<lambda>k. ms EPISODE_TAIL (k, drop k s, [(''name'', take k s)]))
               [Suc 0..<Suc (length (takeWhile (\<lambda>x. x \<noteq> newline) s))])"
  unfolding EPISODE_PATTERN_eq ms_Bol_Seq ms_Seq [of "Group _ _"] ms_name_group
  by (simp add: comp_def)

lemma concat_map_head:
  "concat (map f L) = x # xs \<Longrightarrow> \<exists>k\<in>set L. \<exists>ys. f k = x # ys"
proof (induction L)
  case Nil
  then show ?case by simp
next
  case (Cons a L)
  then show ?case by (cases "f a") auto
qed

definition name_lengths :: "string \<Rightarrow> nat list" where
  "name_lengths s = [Suc 0..<Suc (length (takeWhile (\<lambda>x. x \<noteq> newline) s))]"

lemma re_match_EPISODE_None:
  "re_match EPISODE_PATTERN s = None \<longleftrightarrow> (\<forall>k\<in>set (name_lengths s). tail_parse (drop k s) = None)"
proof -
  have "ms EPISODE_TAIL (k, drop k s, [(''name'', take k s)]) = [] \<longleftrightarrow> tail_parse (drop k s) = None"
    for k
    using EPISODE_TAIL_parse [of k "drop k s" "[(''name'', take k s)]"]
    by (auto split: option.splits)
  then have "ms EPISODE_PATTERN (0, s, []) = [] \<longleftrightarrow>
             (\<forall>k\<in>set (name_lengths s). tail_parse (drop k s) = None)"
    unfolding ms_EPISODE_PATTERN name_lengths_def by simp
  moreover have "re_match EPISODE_PATTERN s = None \<longleftrightarrow> ms EPISODE_PATTERN (0, s, []) = []"
    by (auto simp: re_match_def split: list.splits)
  ultimately show ?thesis by simp
qed

lemma re_match_EPISODE_Some:
  assumes "re_match EPISODE_PATTERN s = Some d"
  shows "\<exists>k ep sec. k \<in> set (name_lengths s) \<and> tail_parse (drop k s) = Some (ep, sec)
           \<and> caps d = (Some (take k s), Some ep, sec)"
proof -
  from assms obtain p rest xs where "ms EPISODE_PATTERN (0, s, []) = (p, rest, d) # xs"
    by (auto simp: re_match_def split: list.splits)
  from concat_map_head [OF this [unfolded ms_EPISODE_PATTERN]]
  obtain k ys where k: "k \<in> set (name_lengths s)"
    and m: "ms EPISODE_TAIL (k, drop k s, [(''name'', take k s)]) = (p, rest, d) # ys"
    unfolding name_lengths_def by blast
  obtain q rest' new where
    e: "ms EPISODE_TAIL (k, drop k s, [(''name'', take k s)]) =
        (case tail_parse (drop k s) of None \<Rightarrow> []
         | Some r \<Rightarrow> [(q, rest', new @ [(''name'', take k s)])])"
    and c: "case tail_parse (drop k s) of None \<Rightarrow> True
          | Some (ep, sec) \<Rightarrow> caps new = (None, Some ep, sec)"
    using EPISODE_TAIL_parse by blast
  from m e obtain ep sec where t: "tail_parse (drop k s) = Some (ep, sec)"
    by (cases "tail_parse (drop k s)") auto
  with m e have d: "d = new @ [(''name'', take k s)]" by simp
  from c t have "caps new = (None, Some ep, sec)" by simp
  then have "caps d = (Some (take k s), Some ep, sec)"
    unfolding d by (auto simp: caps_def map_add_def split: option.splits)
  with k t show ?thesis by blast
qed

section \<open>The last step and its two conversions\<close>

lemma digits_takeWhile: "takeWhile isdigit_chr s \<noteq> [] \<Longrightarrow> digits (takeWhile isdigit_chr s)"
  by (auto simp: digits_def list_all_iff dest: set_takeWhileD)

lemma second_parse_digits: "second_parse s = Some (Some e2) \<Longrightarrow> digits e2"
  by (auto simp: second_parse_def digits_takeWhile split: list.splits if_splits)

lemma episode_parse_digits:
  "episode_parse s = Some (ep, sec) \<Longrightarrow> digits ep \<and> (\<forall>e2. sec = Some e2 \<longrightarrow> digits e2)"
  by (auto simp: episode_parse_def digits_takeWhile second_parse_digits
      split: if_splits option.splits)

lemma tail_parse_digits:
  assumes "tail_parse s = Some (ep, sec)"
  shows "digits ep" and "sec = Some e2 \<Longrightarrow> digits e2"
  using assms episode_parse_digits [of "skip_E (drop 3 s)" ep sec]
  by (auto simp: tail_parse_def split: if_splits)

text \<open>
  Both numbers of a match go through \<^verbatim>\<open>int\<close>, the second one only when its group took
  part in the match. The conversions succeed when neither digit string is longer than
  \<^const>\<open>default_max_str_digits\<close>.
\<close>

definition convertible :: "string \<Rightarrow> string option \<Rightarrow> bool" where
  "convertible episode second_episode =
     (length episode \<le> default_max_str_digits
      \<and> (case second_episode of None \<Rightarrow> True
          | Some e2 \<Rightarrow> length e2 \<le> default_max_str_digits))"

lemma title_episode_match:
  assumes "to_tokenise st = [seg]" and "re_match EPISODE_PATTERN seg = Some d"
    and "caps d = (Some name, Some ep, sec)" and "digits ep"
    and "\<And>e2. sec = Some e2 \<Longrightarrow> digits e2"
  shows "title_episode st =
           (if convertible ep sec
            then Inr (st\<lparr>tokens := tokens st @ Title name # EpisodeNumber (decimal ep) #
                               (case sec of None \<Rightarrow> [] | Some e2 \<Rightarrow> [EpisodeNumber (decimal e2)]),
                        to_tokenise := []\<rparr>)
            else Inl ValueError)"
proof (cases sec)
  case None
  with assms show ?thesis
    by (simp add: title_episode_def caps_def group_int_def py_int_def convertible_def)
next
  case (Some e2)
  with assms(5) have "digits e2" by simp
  with Some assms(1-4) show ?thesis
    by (simp add: title_episode_def caps_def group_int_def py_int_def convertible_def)
qed

section \<open>The episode pattern, read as a shape of the segment\<close>

lemma space_not_newline: "CHR '' '' \<noteq> newline"
  by (simp add: newline_def)

lemma special_ok_iff:
  "special_ok s \<longleftrightarrow>
     (\<exists>sp nl. s = sp @ nl \<and> (sp = [] \<or> sp = '' END'') \<and> (nl = [] \<or> nl = [newline]))"
proof
  assume ok: "special_ok s"
  show "\<exists>sp nl. s = sp @ nl \<and> (sp = [] \<or> sp = '' END'') \<and> (nl = [] \<or> nl = [newline])"
  proof (cases "prefix '' END'' s")
    case True
    then obtain r where "s = '' END'' @ r" by (auto simp: prefix_def)
    moreover from this ok have "r = [] \<or> r = [newline]"
      by (simp add: special_ok_def is_end_def)
    ultimately show ?thesis by blast
  next
    case False
    with ok have "s = [] @ s \<and> (s = [] \<or> s = [newline])"
      by (simp add: special_ok_def is_end_def)
    then show ?thesis by blast
  qed
next
  assume "\<exists>sp nl. s = sp @ nl \<and> (sp = [] \<or> sp = '' END'') \<and> (nl = [] \<or> nl = [newline])"
  then obtain sp nl where s: "s = sp @ nl" and sp: "sp = [] \<or> sp = '' END''"
    and nl: "nl = [] \<or> nl = [newline]" by blast
  from sp show "special_ok s"
  proof
    assume "sp = []"
    with s nl show ?thesis
      using space_not_newline by (auto simp: special_ok_def is_end_def)
  next
    assume "sp = '' END''"
    with s nl show ?thesis
      by (auto simp: special_ok_def is_end_def)
  qed
qed

lemma special_ok_first: "special_ok (c # cs) \<Longrightarrow> c = CHR '' '' \<or> c = newline"
  by (auto simp: special_ok_def is_end_def split: if_splits)

lemma takeWhile_digits_append:
  assumes "list_all isdigit_chr d" and "\<And>c cs. r = c # cs \<Longrightarrow> \<not> isdigit_chr c"
  shows "takeWhile isdigit_chr (d @ r) = d" and "dropWhile isdigit_chr (d @ r) = r"
proof -
  from assms(2) have "takeWhile isdigit_chr r = []" and "dropWhile isdigit_chr r = r"
    by (cases r; simp)+
  with assms(1) show "takeWhile isdigit_chr (d @ r) = d" and "dropWhile isdigit_chr (d @ r) = r"
    by (simp_all add: takeWhile_append2 dropWhile_append2 list_all_iff)
qed

lemma space_nl_not_digit: "\<not> isdigit_chr (CHR '' '')" "\<not> isdigit_chr newline"
  "\<not> isdigit_chr (CHR ''v'')" "\<not> isdigit_chr (CHR ''+'')"
  by (simp_all add: isdigit_chr_def newline_def)

lemma version_ok_first:
  "version_ok (c # cs) \<Longrightarrow> c = CHR ''v'' \<or> c = CHR '' '' \<or> c = newline"
  by (auto simp: version_ok_def dest: special_ok_first split: if_splits)

lemma version_ok_iff:
  "version_ok s \<longleftrightarrow>
     (\<exists>ver r. s = ver @ r \<and> (ver = [] \<or> (\<exists>d. digits d \<and> ver = CHR ''v'' # d)) \<and> special_ok r)"
proof
  assume ok: "version_ok s"
  show "\<exists>ver r. s = ver @ r \<and> (ver = [] \<or> (\<exists>d. digits d \<and> ver = CHR ''v'' # d)) \<and> special_ok r"
  proof (cases "\<exists>r. s = CHR ''v'' # r")
    case True
    then obtain r where s: "s = CHR ''v'' # r" by blast
    with ok have d: "takeWhile isdigit_chr r \<noteq> []" and sp: "special_ok (dropWhile isdigit_chr r)"
      by (simp_all add: version_ok_def)
    have "s = (CHR ''v'' # takeWhile isdigit_chr r) @ dropWhile isdigit_chr r"
      by (simp add: s)
    with digits_takeWhile [OF d] sp show ?thesis by blast
  next
    case False
    with ok have "special_ok s"
      by (auto simp: version_ok_def split: list.splits if_splits)
    then have "s = [] @ s \<and> special_ok s" by simp
    then show ?thesis by blast
  qed
next
  assume "\<exists>ver r. s = ver @ r \<and> (ver = [] \<or> (\<exists>d. digits d \<and> ver = CHR ''v'' # d)) \<and> special_ok r"
  then obtain ver r where s: "s = ver @ r"
    and ver: "ver = [] \<or> (\<exists>d. digits d \<and> ver = CHR ''v'' # d)" and sp: "special_ok r"
    by blast
  from ver show "version_ok s"
  proof
    assume "ver = []"
    with s sp show ?thesis
      using special_ok_first [of _ _] space_not_newline
      by (cases r) (auto simp: version_ok_def newline_def dest!: special_ok_first)
  next
    assume "\<exists>d. digits d \<and> ver = CHR ''v'' # d"
    then obtain d where d: "digits d" and v: "ver = CHR ''v'' # d" by blast
    have nd: "\<not> isdigit_chr c" if "r = c # cs" for c cs
      using special_ok_first [of c cs] sp that space_nl_not_digit by auto
    from d have "list_all isdigit_chr d" and "d \<noteq> []" by (simp_all add: digits_def)
    with takeWhile_digits_append [OF this(1) nd] sp show ?thesis
      by (simp add: version_ok_def s v)
  qed
qed

lemma second_parse_first:
  "second_parse (c # cs) = Some sec
     \<Longrightarrow> c = CHR ''+'' \<or> c = CHR ''v'' \<or> c = CHR '' '' \<or> c = newline"
  by (auto simp: second_parse_def dest: version_ok_first split: if_splits)

lemma digits_first: "digits d \<Longrightarrow> \<exists>c cs. d = c # cs \<and> isdigit_chr c"
  by (cases d) (auto simp: digits_def)

lemma version_first_not_digit: "version_ok r \<Longrightarrow> r = c # cs \<Longrightarrow> \<not> isdigit_chr c"
  using version_ok_first [of c cs] space_nl_not_digit by auto

lemma skip_E_digits: "digits e \<Longrightarrow> skip_E (e @ r) = e @ r"
  using E_not_digit by (auto simp: skip_E_def dest!: digits_first)

lemma second_parse_iff:
  "second_parse s = Some sec \<longleftrightarrow>
     (\<exists>secs r. s = secs @ r
        \<and> (case sec of None \<Rightarrow> secs = []
            | Some e2 \<Rightarrow> digits e2 \<and> (secs = ''+'' @ e2 \<or> secs = ''+E'' @ e2))
        \<and> version_ok r)"
proof
  assume p: "second_parse s = Some sec"
  show "\<exists>secs r. s = secs @ r
        \<and> (case sec of None \<Rightarrow> secs = []
            | Some e2 \<Rightarrow> digits e2 \<and> (secs = ''+'' @ e2 \<or> secs = ''+E'' @ e2))
        \<and> version_ok r"
  proof (cases "\<exists>r. s = CHR ''+'' # r")
    case True
    then obtain r where s: "s = CHR ''+'' # r" by blast
    let ?d = "takeWhile isdigit_chr (skip_E r)"
    from p s have d: "?d \<noteq> []" and v: "version_ok (dropWhile isdigit_chr (skip_E r))"
      and sec: "sec = Some ?d"
      by (auto simp: second_parse_def split: if_splits)
    define rest where "rest = dropWhile isdigit_chr (skip_E r)"
    have split: "skip_E r = ?d @ rest" by (simp add: rest_def)
    have "r = ?d @ rest \<or> r = CHR ''E'' # ?d @ rest"
      unfolding split [symmetric] by (cases r) (auto simp: skip_E_def)
    then have "s = (''+'' @ ?d) @ rest \<or> s = (''+E'' @ ?d) @ rest"
      unfolding s by auto
    then have "\<exists>secs. s = secs @ rest \<and> (secs = ''+'' @ ?d \<or> secs = ''+E'' @ ?d)"
      by blast
    with digits_takeWhile [OF d] v sec show ?thesis
      unfolding rest_def by auto
  next
    case False
    with p have "version_ok s" and "sec = None"
      by (auto simp: second_parse_def split: list.splits if_splits)
    then have "s = [] @ s \<and> (case sec of None \<Rightarrow> [] = []
            | Some e2 \<Rightarrow> digits e2 \<and> ([] = ''+'' @ e2 \<or> [] = ''+E'' @ e2)) \<and> version_ok s"
      by simp
    then show ?thesis by blast
  qed
next
  assume "\<exists>secs r. s = secs @ r
        \<and> (case sec of None \<Rightarrow> secs = []
            | Some e2 \<Rightarrow> digits e2 \<and> (secs = ''+'' @ e2 \<or> secs = ''+E'' @ e2))
        \<and> version_ok r"
  then obtain secs r where s: "s = secs @ r"
    and c: "case sec of None \<Rightarrow> secs = []
            | Some e2 \<Rightarrow> digits e2 \<and> (secs = ''+'' @ e2 \<or> secs = ''+E'' @ e2)"
    and v: "version_ok r" by blast
  show "second_parse s = Some sec"
  proof (cases sec)
    case None
    with c s have sr: "s = r" by simp
    have "\<not> (\<exists>cs. r = CHR ''+'' # cs)"
      using version_ok_first v by (auto simp: newline_def)
    with v None show ?thesis
      unfolding sr by (cases r) (auto simp: second_parse_def)
  next
    case (Some e2)
    with c have d: "digits e2" and secs: "secs = ''+'' @ e2 \<or> secs = ''+E'' @ e2" by simp_all
    from d have l: "list_all isdigit_chr e2" and ne: "e2 \<noteq> []" by (simp_all add: digits_def)
    note tw = takeWhile_digits_append [OF l version_first_not_digit [OF v]]
    from secs have "\<exists>r'. s = CHR ''+'' # r' \<and> skip_E r' = e2 @ r"
    proof
      assume "secs = ''+'' @ e2"
      with s skip_E_digits [OF d, of r] show ?thesis by simp
    next
      assume "secs = ''+E'' @ e2"
      with s show ?thesis by (simp add: skip_E_def)
    qed
    then obtain r' where "s = CHR ''+'' # r'" and "skip_E r' = e2 @ r" by blast
    with tw ne v Some show ?thesis by (simp add: second_parse_def)
  qed
qed

lemma episode_parse_iff:
  "episode_parse s = Some (ep, sec) \<longleftrightarrow>
     (\<exists>r. s = ep @ r \<and> digits ep \<and> second_parse r = Some sec)"
proof
  assume p: "episode_parse s = Some (ep, sec)"
  then have d: "takeWhile isdigit_chr s \<noteq> []" and ep: "ep = takeWhile isdigit_chr s"
    and sec: "second_parse (dropWhile isdigit_chr s) = Some sec"
    by (auto simp: episode_parse_def split: if_splits option.splits)
  have "s = ep @ dropWhile isdigit_chr s" by (simp add: ep)
  with digits_takeWhile [OF d] ep sec
  show "\<exists>r. s = ep @ r \<and> digits ep \<and> second_parse r = Some sec" by metis
next
  assume "\<exists>r. s = ep @ r \<and> digits ep \<and> second_parse r = Some sec"
  then obtain r where s: "s = ep @ r" and d: "digits ep" and sec: "second_parse r = Some sec"
    by blast
  have nd: "\<not> isdigit_chr c" if "r = c # cs" for c cs
    using second_parse_first [of c cs sec] sec that space_nl_not_digit by auto
  from d have l: "list_all isdigit_chr ep" and ne: "ep \<noteq> []" by (simp_all add: digits_def)
  from takeWhile_digits_append [OF l nd] ne sec show "episode_parse s = Some (ep, sec)"
    by (simp add: episode_parse_def s)
qed

lemma tail_parse_iff:
  "tail_parse s = Some (ep, sec) \<longleftrightarrow>
     (\<exists>e1 r. s = '' - '' @ e1 @ r \<and> (e1 = [] \<or> e1 = ''E'') \<and> episode_parse r = Some (ep, sec))"
proof
  assume p: "tail_parse s = Some (ep, sec)"
  then have pre: "prefix '' - '' s" and e: "episode_parse (skip_E (drop 3 s)) = Some (ep, sec)"
    by (auto simp: tail_parse_def split: if_splits)
  from pre obtain t where s: "s = '' - '' @ t" by (auto simp: prefix_def)
  have "t = skip_E t \<or> t = CHR ''E'' # skip_E t"
    by (cases t) (auto simp: skip_E_def)
  then have "s = '' - '' @ [] @ skip_E t \<or> s = '' - '' @ ''E'' @ skip_E t"
    unfolding s by auto
  moreover from e s have "episode_parse (skip_E t) = Some (ep, sec)" by simp
  ultimately show "\<exists>e1 r. s = '' - '' @ e1 @ r \<and> (e1 = [] \<or> e1 = ''E'')
      \<and> episode_parse r = Some (ep, sec)"
    by blast
next
  assume "\<exists>e1 r. s = '' - '' @ e1 @ r \<and> (e1 = [] \<or> e1 = ''E'') \<and> episode_parse r = Some (ep, sec)"
  then obtain e1 r where s: "s = '' - '' @ e1 @ r" and e1: "e1 = [] \<or> e1 = ''E''"
    and e: "episode_parse r = Some (ep, sec)" by blast
  from e obtain r' where r: "r = ep @ r'" and d: "digits ep"
    unfolding episode_parse_iff by blast
  from e1 have "skip_E (e1 @ r) = r"
  proof
    assume "e1 = []"
    with skip_E_digits [OF d, of r'] r show ?thesis by simp
  next
    assume "e1 = ''E''"
    then show ?thesis by (simp add: skip_E_def)
  qed
  with e show "tail_parse s = Some (ep, sec)"
    by (simp add: tail_parse_def s)
qed

text \<open>
  The pattern \<^verbatim>\<open><name> - [E]<episode>[+[E]<second_episode>][v<version>][ END]\<close> as a
  decomposition of the segment. The name is not empty and has no newline (\<^verbatim>\<open>.\<close> does
  not match one), the episodes and the version are non-empty runs of digits, and a single
  newline may end the segment (\<^verbatim>\<open>$\<close> matches before it).
\<close>

definition episode_segment :: "string \<Rightarrow> string \<Rightarrow> string \<Rightarrow> string option \<Rightarrow> bool" where
  "episode_segment seg name episode second_episode =
     (\<exists>e1 sec ver sp nl.
        seg = name @ '' - '' @ e1 @ episode @ sec @ ver @ sp @ nl
        \<and> name \<noteq> [] \<and> newline \<notin> set name
        \<and> (e1 = [] \<or> e1 = ''E'')
        \<and> digits episode
        \<and> (case second_episode of
              None \<Rightarrow> sec = []
            | Some e2 \<Rightarrow> digits e2 \<and> (sec = ''+'' @ e2 \<or> sec = ''+E'' @ e2))
        \<and> (ver = [] \<or> (\<exists>d. digits d \<and> ver = CHR ''v'' # d))
        \<and> (sp = [] \<or> sp = '' END'')
        \<and> (nl = [] \<or> nl = [newline]))"

lemma tail_parse_flat:
  "tail_parse t = Some (ep, sec) \<longleftrightarrow>
     (\<exists>e1 secs ver sp nl.
        t = '' - '' @ e1 @ ep @ secs @ ver @ sp @ nl
        \<and> (e1 = [] \<or> e1 = ''E'')
        \<and> digits ep
        \<and> (case sec of
              None \<Rightarrow> secs = []
            | Some e2 \<Rightarrow> digits e2 \<and> (secs = ''+'' @ e2 \<or> secs = ''+E'' @ e2))
        \<and> (ver = [] \<or> (\<exists>d. digits d \<and> ver = CHR ''v'' # d))
        \<and> (sp = [] \<or> sp = '' END'')
        \<and> (nl = [] \<or> nl = [newline]))"
  (is "?L \<longleftrightarrow> ?R")
proof
  assume ?L
  then obtain e1 r1 where t: "t = '' - '' @ e1 @ r1" and e1: "e1 = [] \<or> e1 = ''E''"
    and 1: "episode_parse r1 = Some (ep, sec)"
    unfolding tail_parse_iff by blast
  from 1 obtain r2 where r1: "r1 = ep @ r2" and d: "digits ep" and 2: "second_parse r2 = Some sec"
    unfolding episode_parse_iff by blast
  from 2 obtain secs r3 where r2: "r2 = secs @ r3"
    and s: "case sec of None \<Rightarrow> secs = []
            | Some e2 \<Rightarrow> digits e2 \<and> (secs = ''+'' @ e2 \<or> secs = ''+E'' @ e2)"
    and 3: "version_ok r3"
    unfolding second_parse_iff by blast
  from 3 obtain ver r4 where r3: "r3 = ver @ r4"
    and v: "ver = [] \<or> (\<exists>d. digits d \<and> ver = CHR ''v'' # d)" and 4: "special_ok r4"
    unfolding version_ok_iff by blast
  from 4 obtain sp nl where r4: "r4 = sp @ nl" and sp: "sp = [] \<or> sp = '' END''"
    and nl: "nl = [] \<or> nl = [newline]"
    unfolding special_ok_iff by blast
  have "t = '' - '' @ e1 @ ep @ secs @ ver @ sp @ nl"
    unfolding t r1 r2 r3 r4 ..
  with e1 d s v sp nl show ?R by blast
next
  assume ?R
  then obtain e1 secs ver sp nl where t: "t = '' - '' @ e1 @ ep @ secs @ ver @ sp @ nl"
    and e1: "e1 = [] \<or> e1 = ''E''" and d: "digits ep"
    and s: "case sec of None \<Rightarrow> secs = []
            | Some e2 \<Rightarrow> digits e2 \<and> (secs = ''+'' @ e2 \<or> secs = ''+E'' @ e2)"
    and v: "ver = [] \<or> (\<exists>d. digits d \<and> ver = CHR ''v'' # d)"
    and sp: "sp = [] \<or> sp = '' END''" and nl: "nl = [] \<or> nl = [newline]"
    by blast
  from sp nl have "special_ok (sp @ nl)" unfolding special_ok_iff by blast
  with v have "version_ok (ver @ sp @ nl)" unfolding version_ok_iff by blast
  with s have "second_parse (secs @ ver @ sp @ nl) = Some sec" unfolding second_parse_iff by blast
  with d have "episode_parse (ep @ secs @ ver @ sp @ nl) = Some (ep, sec)"
    unfolding episode_parse_iff by blast
  with e1 show ?L unfolding tail_parse_iff t by blast
qed

lemma digits_no_dash: "digits d \<Longrightarrow> CHR ''-'' \<notin> set d"
  using digit_not_special by (auto simp: digits_def list_all_iff)

lemma tail_parse_no_dash:
  assumes "tail_parse t = Some (ep, sec)"
  shows "\<exists>y. t = '' - '' @ y \<and> CHR ''-'' \<notin> set y"
proof -
  from assms obtain e1 secs ver sp nl where t: "t = '' - '' @ e1 @ ep @ secs @ ver @ sp @ nl"
    and e1: "e1 = [] \<or> e1 = ''E''" and d: "digits ep"
    and s: "case sec of None \<Rightarrow> secs = []
            | Some e2 \<Rightarrow> digits e2 \<and> (secs = ''+'' @ e2 \<or> secs = ''+E'' @ e2)"
    and v: "ver = [] \<or> (\<exists>d. digits d \<and> ver = CHR ''v'' # d)"
    and sp: "sp = [] \<or> sp = '' END''" and nl: "nl = [] \<or> nl = [newline]"
    unfolding tail_parse_flat by blast
  from e1 have 1: "CHR ''-'' \<notin> set e1" by auto
  from d have 2: "CHR ''-'' \<notin> set ep" by (rule digits_no_dash)
  from s have 3: "CHR ''-'' \<notin> set secs"
    by (cases sec) (auto dest: digits_no_dash)
  from v have 4: "CHR ''-'' \<notin> set ver" by (auto dest: digits_no_dash)
  from sp have 5: "CHR ''-'' \<notin> set sp" by auto
  from nl have 6: "CHR ''-'' \<notin> set nl" by (auto simp: newline_def)
  from 1 2 3 4 5 6 have "CHR ''-'' \<notin> set (e1 @ ep @ secs @ ver @ sp @ nl)" by simp
  with t show ?thesis by blast
qed

lemma tail_parse_later:
  assumes "tail_parse (drop k s) = Some a" and "k < k'"
  shows "tail_parse (drop k' s) = None"
proof (rule ccontr)
  assume "tail_parse (drop k' s) \<noteq> None"
  then obtain b where b: "tail_parse (drop k' s) = Some b" by blast
  obtain y where t: "drop k s = '' - '' @ y" and y: "CHR ''-'' \<notin> set y"
    using tail_parse_no_dash [of "drop k s" "fst a" "snd a"] assms(1) by auto
  obtain y' where t': "drop k' s = '' - '' @ y'"
    using tail_parse_no_dash [of "drop k' s" "fst b" "snd b"] b by auto
  define j where "j = k' - k"
  with assms(2) have j: "k' = j + k" "1 \<le> j" by simp_all
  have "drop (Suc j) (drop k s) = tl (drop k' s)"
    unfolding j(1) by (simp add: drop_Suc tl_drop add.commute)
  then have "CHR ''-'' \<in> set (drop (Suc j) (drop k s))"
    unfolding t' by simp
  moreover have "set (drop (Suc j) (drop k s)) \<subseteq> set (drop 2 (drop k s))"
    using j(2) by (intro set_drop_subset_set_drop) simp
  moreover have "set (drop 2 (drop k s)) = insert (CHR '' '') (set y)"
    unfolding t by simp
  ultimately show False using y by auto
qed

lemma tail_parse_unique:
  assumes "tail_parse (drop k s) = Some a" and "tail_parse (drop k' s) = Some b"
  shows "k = k'"
proof (rule ccontr)
  assume "k \<noteq> k'"
  then consider "k < k'" | "k' < k" by linarith
  then show False
    using tail_parse_later [OF assms(1), of k'] tail_parse_later [OF assms(2), of k] assms
    by cases simp_all
qed

lemma name_lengths_iff:
  "k \<in> set (name_lengths s) \<longleftrightarrow> 1 \<le> k \<and> k \<le> length (takeWhile (\<lambda>x. x \<noteq> newline) s)"
  by (auto simp: name_lengths_def)

lemma episode_segment_match:
  assumes "episode_segment seg name ep sec"
  shows "\<exists>d. re_match EPISODE_PATTERN seg = Some d \<and> caps d = (Some name, Some ep, sec)"
proof -
  from assms obtain t where seg: "seg = name @ t" and ne: "name \<noteq> []"
    and nl: "newline \<notin> set name" and t: "tail_parse t = Some (ep, sec)"
    unfolding episode_segment_def tail_parse_flat by blast
  let ?k = "length name"
  have "takeWhile (\<lambda>x. x \<noteq> newline) seg = name @ takeWhile (\<lambda>x. x \<noteq> newline) t"
    unfolding seg using nl by (intro takeWhile_append2) auto
  with ne have k: "?k \<in> set (name_lengths seg)"
    by (cases name) (simp_all add: name_lengths_iff)
  have dk: "drop ?k seg = t" and tk: "take ?k seg = name" by (simp_all add: seg)
  from k t dk have "re_match EPISODE_PATTERN seg \<noteq> None"
    unfolding re_match_EPISODE_None by auto
  then obtain d where d: "re_match EPISODE_PATTERN seg = Some d" by blast
  from re_match_EPISODE_Some [OF d] obtain k' ep' sec' where
    t': "tail_parse (drop k' seg) = Some (ep', sec')"
    and c: "caps d = (Some (take k' seg), Some ep', sec')"
    by blast
  from tail_parse_unique [OF t' t [folded dk]] have "k' = ?k" .
  with t' t dk c tk have "caps d = (Some name, Some ep, sec)" by simp
  with d show ?thesis by blast
qed

lemma episode_segment_of_match:
  assumes "re_match EPISODE_PATTERN seg = Some d"
  shows "\<exists>name ep sec. episode_segment seg name ep sec"
proof -
  let ?P = "\<lambda>x. x \<noteq> newline"
  from re_match_EPISODE_Some [OF assms] obtain k ep sec where
    k: "k \<in> set (name_lengths seg)" and t: "tail_parse (drop k seg) = Some (ep, sec)"
    by blast
  from k have k1: "1 \<le> k" and kn: "k \<le> length (takeWhile ?P seg)"
    by (simp_all add: name_lengths_iff)
  have "take k (takeWhile ?P seg @ dropWhile ?P seg) = take k (takeWhile ?P seg)"
    using kn by (simp del: takeWhile_dropWhile_id)
  then have "take k seg = take k (takeWhile ?P seg)" by simp
  then have "set (take k seg) \<subseteq> set (takeWhile ?P seg)"
    using set_take_subset [of k "takeWhile ?P seg"] by simp
  then have nl: "newline \<notin> set (take k seg)"
    by (auto dest: set_takeWhileD)
  from k1 kn length_takeWhile_le [of ?P seg] have ne: "take k seg \<noteq> []"
    by (cases seg) auto
  from t obtain e1 secs ver sp nl' where
    d: "drop k seg = '' - '' @ e1 @ ep @ secs @ ver @ sp @ nl'"
    and c: "e1 = [] \<or> e1 = ''E''" "digits ep"
      "case sec of None \<Rightarrow> secs = []
       | Some e2 \<Rightarrow> digits e2 \<and> (secs = ''+'' @ e2 \<or> secs = ''+E'' @ e2)"
      "ver = [] \<or> (\<exists>d. digits d \<and> ver = CHR ''v'' # d)"
      "sp = [] \<or> sp = '' END''" "nl' = [] \<or> nl' = [newline]"
    unfolding tail_parse_flat by blast
  have "seg = take k seg @ '' - '' @ e1 @ ep @ secs @ ver @ sp @ nl'"
    using append_take_drop_id [of k seg] unfolding d by simp
  with c ne nl have "episode_segment seg (take k seg) ep sec"
    unfolding episode_segment_def by blast
  then show ?thesis by blast
qed

lemma tags_no_bracket: "CHR ''['' \<notin> set s \<Longrightarrow> tags s = []"
proof (induction s)
  case Nil
  show ?case by (rule tags_Nil)
next
  case (Cons c cs)
  then have "c \<noteq> CHR ''[''" and "tags cs = []" by auto
  then show ?case by (simp add: tags_skip match_tag_not_bracket)
qed

lemma tokenise_run_no_bracket:
  assumes "CHR ''['' \<notin> set s" and "s \<noteq> []"
  shows "tokenise_run s = title_episode \<lparr>tokens = [], to_tokenise = [s], string = s, stdout = []\<rparr>"
  using assms by (simp add: tokenise_run_def findall_def findall_from_tags tags_no_bracket)

section \<open>Title and episode\<close>

text \<open>The tokens of a match: the title, the episode, and the second episode if there is one.\<close>

definition episode_tokens :: "string \<Rightarrow> string \<Rightarrow> string option \<Rightarrow> token list" where
  "episode_tokens name episode second_episode =
     Title name # EpisodeNumber (decimal episode) #
     (case second_episode of None \<Rightarrow> [] | Some e2 \<Rightarrow> [EpisodeNumber (decimal e2)])"

lemma title_episode_segment:
  assumes "to_tokenise st = [seg]" and "episode_segment seg name ep sec"
  shows "title_episode st =
           (if convertible ep sec
            then Inr (st\<lparr>tokens := tokens st @ episode_tokens name ep sec, to_tokenise := []\<rparr>)
            else Inl ValueError)"
proof -
  from episode_segment_match [OF assms(2)] obtain d where
    d: "re_match EPISODE_PATTERN seg = Some d" and c: "caps d = (Some name, Some ep, sec)"
    by blast
  from assms(2) have "digits ep" and "\<And>e2. sec = Some e2 \<Longrightarrow> digits e2"
    unfolding episode_segment_def by auto
  from title_episode_match [OF assms(1) d c this] show ?thesis
    by (simp add: episode_tokens_def)
qed

lemma title_episode_no_segment:
  assumes "to_tokenise st = [seg]" and "\<And>name ep sec. \<not> episode_segment seg name ep sec"
  shows "title_episode st = Inr st"
proof -
  have "re_match EPISODE_PATTERN seg = None"
    using episode_segment_of_match [of seg] assms(2) by (cases "re_match EPISODE_PATTERN seg") auto
  with assms(1) show ?thesis by (simp add: title_episode_def)
qed

lemma title_episode_not_single: "length (to_tokenise st) \<noteq> 1 \<Longrightarrow> title_episode st = Inr st"
  by (cases "to_tokenise st" rule: list.exhaust [case_names Nil Cons])
     (auto simp: title_episode_def split: list.splits)

lemma tokenise_no_bracket_segment:
  assumes "CHR ''['' \<notin> set s" and "episode_segment s name ep sec"
  shows "tokenise s = (if convertible ep sec then Inr (episode_tokens name ep sec, [])
                       else Inl ValueError)"
proof -
  from assms(2) have "s \<noteq> []" by (auto simp: episode_segment_def)
  with assms(1) have "tokenise_run s =
      title_episode \<lparr>tokens = [], to_tokenise = [s], string = s, stdout = []\<rparr>"
    by (simp add: tokenise_run_no_bracket)
  also have "\<dots> = (if convertible ep sec
      then Inr \<lparr>tokens = episode_tokens name ep sec, to_tokenise = [], string = s, stdout = []\<rparr>
      else Inl ValueError)"
    using assms(2) by (subst title_episode_segment [of _ s name ep sec]) simp_all
  finally show ?thesis
    by (simp add: tokenise_def)
qed

lemma digits_replicate: "0 < n \<Longrightarrow> isdigit_chr c \<Longrightarrow> digits (replicate n c)"
  by (simp add: digits_def list_all_iff)

text \<open>
  C7, as the claim states it, fails on a segment that has the shape but whose second
  episode has 4301 digits: \<^verbatim>\<open>int\<close> refuses the digit string, and \<^verbatim>\<open>_tokenise\<close> raises
  \<^verbatim>\<open>ValueError\<close> where the claim has it return the title and both episode numbers.
\<close>

theorem C7_title_episode_counterexample:
  "episode_segment (''Show - 01+'' @ replicate 4301 (CHR ''2'')) ''Show'' ''01''
       (Some (replicate 4301 (CHR ''2'')))
   \<and> tokenise (''Show - 01+'' @ replicate 4301 (CHR ''2'')) = Inl ValueError"
proof -
  let ?e2 = "replicate 4301 (CHR ''2'')"
  have d2: "digits ?e2"
    by (rule digits_replicate) (simp_all add: isdigit_chr_def)
  have d1: "digits ''01''"
    by (simp add: digits_def isdigit_chr_def)
  have "''Show - 01+'' @ ?e2 = ''Show'' @ '' - '' @ [] @ ''01'' @ (''+'' @ ?e2) @ [] @ [] @ []"
    by simp
  moreover have "newline \<notin> set ''Show''" by (simp add: newline_def)
  ultimately have e: "episode_segment (''Show - 01+'' @ ?e2) ''Show'' ''01'' (Some ?e2)"
    unfolding episode_segment_def using d1 d2
    by (intro exI [of _ "[]"] exI [of _ "''+'' @ ?e2"]) simp
  have b: "CHR ''['' \<notin> set (''Show - 01+'' @ ?e2)" by simp
  have "\<not> convertible ''01'' (Some ?e2)"
    by (simp add: convertible_def default_max_str_digits_def)
  with tokenise_no_bracket_segment [OF b e] e show ?thesis by simp
qed

text \<open>
  C7. The last step of \<^verbatim>\<open>_tokenise\<close> leaves the state as it is unless exactly one
  residual segment remains. A single segment of the shape
  \<^verbatim>\<open><name> - [E]<episode>[+[E]<second_episode>][v<version>][ END]\<close> whose episode and
  second episode have at most 4300 digits each adds \<open>Title name\<close> and
  \<open>EpisodeNumber episode\<close> (and \<open>EpisodeNumber second_episode\<close> when that group is
  there), nothing for the version or the \<^verbatim>\<open>END\<close> marker, and empties the list of
  residual segments. A single segment of the shape with a longer episode or second
  episode makes \<^verbatim>\<open>int\<close> raise \<^verbatim>\<open>ValueError\<close>, and nothing is returned. A single
  segment of no such shape stays the only residual segment. For a string without an
  opening bracket this is the whole result of \<^verbatim>\<open>_tokenise\<close>.
\<close>

theorem C7_title_episode_amended:
  "(length (to_tokenise st) \<noteq> 1 \<longrightarrow> title_episode st = Inr st)
   \<and> (to_tokenise st = [seg] \<and> episode_segment seg name ep sec \<and> convertible ep sec \<longrightarrow>
        title_episode st =
          Inr (st\<lparr>tokens := tokens st @ episode_tokens name ep sec, to_tokenise := []\<rparr>))
   \<and> (to_tokenise st = [seg] \<and> episode_segment seg name ep sec \<and> \<not> convertible ep sec \<longrightarrow>
        title_episode st = Inl ValueError)
   \<and> (to_tokenise st = [seg] \<and> (\<forall>name ep sec. \<not> episode_segment seg name ep sec) \<longrightarrow>
        title_episode st = Inr st)
   \<and> (CHR ''['' \<notin> set s \<and> episode_segment s name ep sec \<and> convertible ep sec \<longrightarrow>
        tokenise s = Inr (episode_tokens name ep sec, []))
   \<and> (CHR ''['' \<notin> set s \<and> episode_segment s name ep sec \<and> \<not> convertible ep sec \<longrightarrow>
        tokenise s = Inl ValueError)
   \<and> (CHR ''['' \<notin> set s \<and> s \<noteq> [] \<and> (\<forall>name ep sec. \<not> episode_segment s name ep sec) \<longrightarrow>
        tokenise s = Inr ([], [s]))"
proof (intro conjI impI)
  assume "length (to_tokenise st) \<noteq> 1"
  then show "title_episode st = Inr st" by (rule title_episode_not_single)
next
  assume "to_tokenise st = [seg] \<and> episode_segment seg name ep sec \<and> convertible ep sec"
  then show "title_episode st =
          Inr (st\<lparr>tokens := tokens st @ episode_tokens name ep sec, to_tokenise := []\<rparr>)"
    using title_episode_segment [of st seg name ep sec] by simp
next
  assume "to_tokenise st = [seg] \<and> episode_segment seg name ep sec \<and> \<not> convertible ep sec"
  then show "title_episode st = Inl ValueError"
    using title_episode_segment [of st seg name ep sec] by simp
next
  assume "to_tokenise st = [seg] \<and> (\<forall>name ep sec. \<not> episode_segment seg name ep sec)"
  then show "title_episode st = Inr st"
    using title_episode_no_segment by blast
next
  assume "CHR ''['' \<notin> set s \<and> episode_segment s name ep sec \<and> convertible ep sec"
  then show "tokenise s = Inr (episode_tokens name ep sec, [])"
    using tokenise_no_bracket_segment [of s name ep sec] by simp
next
  assume "CHR ''['' \<notin> set s \<and> episode_segment s name ep sec \<and> \<not> convertible ep sec"
  then show "tokenise s = Inl ValueError"
    using tokenise_no_bracket_segment [of s name ep sec] by simp
next
  assume a: "CHR ''['' \<notin> set s \<and> s \<noteq> [] \<and> (\<forall>name ep sec. \<not> episode_segment s name ep sec)"
  then have "tokenise_run s =
      title_episode \<lparr>tokens = [], to_tokenise = [s], string = s, stdout = []\<rparr>"
    by (simp add: tokenise_run_no_bracket)
  also have "\<dots> = Inr \<lparr>tokens = [], to_tokenise = [s], string = s, stdout = []\<rparr>"
    using a by (subst title_episode_no_segment [of _ s]) simp_all
  finally show "tokenise s = Inr ([], [s])"
    by (simp add: tokenise_def)
qed

theorem C7_title_episode_amended_witness:
  "CHR ''['' \<notin> set ''Show - E05+E06v2 END''
   \<and> episode_segment ''Show - E05+E06v2 END'' ''Show'' ''05'' (Some ''06'')
   \<and> convertible ''05'' (Some ''06'')
   \<and> tokenise ''Show - E05+E06v2 END'' =
       Inr ([Title ''Show'', EpisodeNumber 5, EpisodeNumber 6], [])"
proof -
  have b: "CHR ''['' \<notin> set ''Show - E05+E06v2 END''" by simp
  have "''Show - E05+E06v2 END'' = ''Show'' @ '' - '' @ ''E'' @ ''05'' @ ''+E06'' @ ''v2'' @ '' END'' @ []"
    by simp
  moreover have "digits ''05''" "digits ''06''" "digits ''2''"
    by (simp_all add: digits_def isdigit_chr_def)
  moreover have "newline \<notin> set ''Show''" by (simp add: newline_def)
  ultimately have e: "episode_segment ''Show - E05+E06v2 END'' ''Show'' ''05'' (Some ''06'')"
    unfolding episode_segment_def
    by (intro exI [of _ "''E''"] exI [of _ "''+E06''"] exI [of _ "''v2''"] exI [of _ "'' END''"]
        exI [of _ "[]"]) simp
  have c: "convertible ''05'' (Some ''06'')"
    by (simp add: convertible_def default_max_str_digits_def)
  have t: "episode_tokens ''Show'' ''05'' (Some ''06'') =
           [Title ''Show'', EpisodeNumber 5, EpisodeNumber 6]"
    by (simp add: episode_tokens_def decimal_def digit_value_def)
  from C7_title_episode_amended [of _ _ "''Show''" "''05''" "Some ''06''" "''Show - E05+E06v2 END''"]
    b e c
  have "tokenise ''Show - E05+E06v2 END'' = Inr (episode_tokens ''Show'' ''05'' (Some ''06''), [])"
    by blast
  with b e c t show ?thesis by simp
qed

section \<open>When the tokenizer raises\<close>

text \<open>
  The loop over the tags never raises, and the last step raises only where \<^verbatim>\<open>int\<close>
  refuses a digit string for its length. The digit strings it is given are pieces of
  the input, so an input whose runs of digits are all short enough cannot make it raise.
\<close>

fun digit_runs :: "string \<Rightarrow> string list" where
  \<comment> \<open>the string cut at every character that is no digit: the maximal runs of digits,
      with an empty run wherever two such characters are neighbours\<close>
  "digit_runs [] = [[]]"
| "digit_runs (c # cs) =
     (if isdigit_chr c
      then (case digit_runs cs of r # rs \<Rightarrow> (c # r) # rs | [] \<Rightarrow> [[c]])
      else [] # digit_runs cs)"

definition short_digit_runs :: "string \<Rightarrow> bool" where
  "short_digit_runs s = list_all (\<lambda>r. length r \<le> default_max_str_digits) (digit_runs s)"

text \<open>The runs are the digit strings inside the input, up to the longest ones.\<close>

lemma digit_runs_not_Nil: "digit_runs s \<noteq> []"
  by (induction s) (auto split: list.splits)

lemma digit_runs_hd: "hd (digit_runs s) = takeWhile isdigit_chr s"
  by (induction s) (auto split: list.splits simp: digit_runs_not_Nil)

lemma prefix_takeWhile_all: "prefix ds s \<Longrightarrow> list_all P ds \<Longrightarrow> prefix ds (takeWhile P s)"
  by (auto simp: prefix_def list_all_iff takeWhile_append2)

lemma digit_runs_cover:
  "sublist ds s \<Longrightarrow> list_all isdigit_chr ds \<Longrightarrow> \<exists>r\<in>set (digit_runs s). sublist ds r"
proof (induction s)
  case Nil
  then show ?case by simp
next
  case (Cons c cs)
  obtain r0 rs where runs: "digit_runs cs = r0 # rs"
    using digit_runs_not_Nil [of cs] by (cases "digit_runs cs") auto
  from Cons.prems(1) consider "prefix ds (c # cs)" | "sublist ds cs"
    by (auto simp: sublist_Cons_right)
  then show ?case
  proof cases
    case 1
    show ?thesis
    proof (cases ds)
      case Nil
      then show ?thesis by (auto simp: runs)
    next
      case (Cons d ds')
      with 1 Cons.prems(2) have c: "d = c" "isdigit_chr c" and p: "prefix ds' cs"
        and a: "list_all isdigit_chr ds'"
        by auto
      from prefix_takeWhile_all [OF p a] have "prefix ds' r0"
        using digit_runs_hd [of cs] runs by simp
      then have "sublist ds (c # r0)"
        unfolding Cons c(1) by (simp add: prefix_imp_sublist)
      with c(2) show ?thesis by (simp add: runs)
    qed
  next
    case 2
    from Cons.IH [OF 2 Cons.prems(2)] obtain r where r: "r \<in> set (digit_runs cs)" "sublist ds r"
      by blast
    show ?thesis
    proof (cases "isdigit_chr c")
      case True
      from r(1) runs consider "r = r0" | "r \<in> set rs" by auto
      then show ?thesis
      proof cases
        case 1
        with r(2) have "sublist ds (c # r0)" by (simp add: sublist_Cons_right)
        with True show ?thesis by (simp add: runs)
      next
        case 2
        with r(2) True show ?thesis by (auto simp: runs)
      qed
    next
      case False
      with r show ?thesis by auto
    qed
  qed
qed

lemma digit_runs_sound:
  "r \<in> set (digit_runs s) \<Longrightarrow> sublist r s \<and> list_all isdigit_chr r"
proof (induction s arbitrary: r)
  case Nil
  then show ?case by simp
next
  case (Cons c cs)
  obtain r0 rs where runs: "digit_runs cs = r0 # rs"
    using digit_runs_not_Nil [of cs] by (cases "digit_runs cs") auto
  have r0: "r0 = takeWhile isdigit_chr cs"
    using digit_runs_hd [of cs] runs by simp
  show ?case
  proof (cases "isdigit_chr c")
    case True
    from Cons.prems True runs consider "r = c # r0" | "r \<in> set rs" by auto
    then show ?thesis
    proof cases
      case 1
      have "prefix (c # r0) (c # cs)"
        unfolding r0 by (simp add: takeWhile_is_prefix)
      moreover have "list_all isdigit_chr r0"
        unfolding r0 by (auto simp: list_all_iff dest: set_takeWhileD)
      ultimately show ?thesis
        using 1 True by (simp add: prefix_imp_sublist)
    next
      case 2
      then have "r \<in> set (digit_runs cs)" by (simp add: runs)
      from Cons.IH [OF this] show ?thesis by (simp add: sublist_Cons_right)
    qed
  next
    case False
    with Cons.prems consider "r = []" | "r \<in> set (digit_runs cs)" by auto
    then show ?thesis
    proof cases
      case 1
      then show ?thesis by simp
    next
      case 2
      from Cons.IH [OF this] show ?thesis by (simp add: sublist_Cons_right)
    qed
  qed
qed

lemma short_digit_runs_iff:
  "short_digit_runs s \<longleftrightarrow>
     (\<forall>ds. sublist ds s \<and> list_all isdigit_chr ds \<longrightarrow> length ds \<le> default_max_str_digits)"
proof
  assume s: "short_digit_runs s"
  show "\<forall>ds. sublist ds s \<and> list_all isdigit_chr ds \<longrightarrow> length ds \<le> default_max_str_digits"
  proof (intro allI impI)
    fix ds assume "sublist ds s \<and> list_all isdigit_chr ds"
    with digit_runs_cover obtain r where r: "r \<in> set (digit_runs s)" "sublist ds r" by blast
    from r(1) s have "length r \<le> default_max_str_digits"
      by (simp add: short_digit_runs_def list_all_iff)
    with sublist_length_le [OF r(2)] show "length ds \<le> default_max_str_digits" by simp
  qed
next
  assume "\<forall>ds. sublist ds s \<and> list_all isdigit_chr ds \<longrightarrow> length ds \<le> default_max_str_digits"
  with digit_runs_sound show "short_digit_runs s"
    by (auto simp: short_digit_runs_def list_all_iff)
qed

text \<open>The loop only ever keeps pieces of the input.\<close>

lemma find_sub_Some: "find_sub t s = Some (a, b) \<Longrightarrow> s = a @ t @ b"
proof (induction s arbitrary: a b)
  case Nil
  then show ?case by (simp split: if_splits)
next
  case (Cons x xs)
  show ?case
  proof (cases "prefix t (x # xs)")
    case True
    with Cons.prems have "a = []" "b = drop (length t) (x # xs)" by simp_all
    with True show ?thesis by (auto simp: prefix_def)
  next
    case False
    with Cons.prems obtain a' where "find_sub t xs = Some (a', b)" "a = x # a'"
      by (auto split: option.splits)
    with Cons.IH show ?thesis by simp
  qed
qed

lemma sublist_lstrip: "sublist (lstrip s) s"
  unfolding lstrip_def by (rule suffix_imp_sublist) (rule suffix_dropWhile)

lemma sublist_rstrip: "sublist (rstrip s) s"
proof -
  have "suffix (dropWhile isspace_chr (rev s)) (rev s)" by (rule suffix_dropWhile)
  then have "prefix (rstrip s) s"
    by (simp add: suffix_to_prefix rstrip_def)
  then show ?thesis by (rule prefix_imp_sublist)
qed

definition within :: "string \<Rightarrow> tstate \<Rightarrow> bool" where
  \<comment> \<open>the string still to be cut and every residual segment are pieces of the input\<close>
  "within s st = (sublist (string st) s \<and> (\<forall>x\<in>set (to_tokenise st). sublist x s))"

lemma tag_step_within:
  assumes "tag_step st tag = Inr st'" and "within s st"
  shows "within s st'"
proof -
  obtain st1 where c: "classify_value (butlast (tl tag)) st = Inr st1"
    and s1: "string st1 = string st" "to_tokenise st1 = to_tokenise st"
    using classify_value_tokens by blast
  from assms(1) c obtain remainder rest where
    sp: "split_once tag (string st1) = Inr [remainder, rest]"
    and st': "st' = st1\<lparr>string := lstrip rest,
                        to_tokenise := (if rstrip remainder \<noteq> []
                                        then to_tokenise st1 @ [rstrip remainder]
                                        else to_tokenise st1)\<rparr>"
    by (auto simp: tag_step_def split: sum.splits list.splits)
  from sp have "find_sub tag (string st1) = Some (remainder, rest)"
    by (auto simp: split_once_def split: if_splits option.splits)
  then have str: "string st = remainder @ tag @ rest"
    using find_sub_Some s1(1) by simp
  from assms(2) have w: "sublist (string st) s" "\<forall>x\<in>set (to_tokenise st). sublist x s"
    by (simp_all add: within_def)
  have "sublist rest (string st)"
    unfolding str by (metis sublist_appendI append_assoc append_Nil2)
  with sublist_lstrip [of rest] w(1) have a: "sublist (lstrip rest) s"
    using sublist_order.order_trans by blast
  have "sublist remainder (string st)"
    unfolding str by (simp add: prefix_imp_sublist)
  with sublist_rstrip [of remainder] w(1) have b: "sublist (rstrip remainder) s"
    using sublist_order.order_trans by blast
  from a b w(2) show ?thesis
    by (simp add: within_def st' s1)
qed

lemma tag_loop_within:
  "tag_loop st ts = Inr st' \<Longrightarrow> within s st \<Longrightarrow> within s st'"
proof (induction ts arbitrary: st)
  case Nil
  then show ?case by simp
next
  case (Cons t ts)
  from Cons.prems(1) obtain st1 where s1: "tag_step st t = Inr st1"
    and l: "tag_loop st1 ts = Inr st'"
    by (auto split: sum.splits)
  from Cons.IH [OF l tag_step_within [OF s1 Cons.prems(2)]] show ?case .
qed

definition residual :: "tstate \<Rightarrow> tstate" where
  \<comment> \<open>the state after the loop, what is left of the string being the last residual
      segment (\<^verbatim>\<open>if string: to_tokenise.append(string)\<close>)\<close>
  "residual st = (if string st \<noteq> [] then st\<lparr>to_tokenise := to_tokenise st @ [string st]\<rparr> else st)"

lemma episode_segment_sublist:
  assumes "episode_segment seg name ep sec"
  shows "sublist ep seg \<and> (\<forall>e2. sec = Some e2 \<longrightarrow> sublist e2 seg)"
proof -
  from assms obtain e1 secs ver sp nl where
    seg: "seg = name @ '' - '' @ e1 @ ep @ secs @ ver @ sp @ nl"
    and sec: "case sec of None \<Rightarrow> secs = []
              | Some e2 \<Rightarrow> digits e2 \<and> (secs = ''+'' @ e2 \<or> secs = ''+E'' @ e2)"
    unfolding episode_segment_def by blast
  have "seg = (name @ '' - '' @ e1) @ ep @ (secs @ ver @ sp @ nl)"
    unfolding seg by simp
  then have 1: "sublist ep seg"
    unfolding sublist_def by blast
  have 2: "sublist e2 seg" if "sec = Some e2" for e2
  proof -
    from sec that obtain p where "secs = p @ e2" by auto
    then have "seg = (name @ '' - '' @ e1 @ ep @ p) @ e2 @ (ver @ sp @ nl)"
      unfolding seg by simp
    then show ?thesis unfolding sublist_def by blast
  qed
  from 1 2 show ?thesis by blast
qed

lemma convertible_short:
  assumes "episode_segment seg name ep sec" and "sublist seg s" and "short_digit_runs s"
  shows "convertible ep sec"
proof -
  note b = short_digit_runs_iff [THEN iffD1, OF assms(3), rule_format]
  from assms(1) have d: "digits ep" "\<And>e2. sec = Some e2 \<Longrightarrow> digits e2"
    unfolding episode_segment_def by auto
  from episode_segment_sublist [OF assms(1)] assms(2)
  have s: "sublist ep s" "\<And>e2. sec = Some e2 \<Longrightarrow> sublist e2 s"
    using sublist_order.order_trans by blast+
  from b [of ep] d(1) s(1) have 1: "length ep \<le> default_max_str_digits"
    by (simp add: digits_def)
  have 2: "length e2 \<le> default_max_str_digits" if "sec = Some e2" for e2
    using b [of e2] d(2) [OF that] s(2) [OF that] by (simp add: digits_def)
  from 1 2 show ?thesis
    by (auto simp: convertible_def split: option.splits)
qed

lemma title_episode_cases:
  obtains (unchanged) "title_episode st = Inr st"
  | (shape) seg name ep sec where "to_tokenise st = [seg]" "episode_segment seg name ep sec"
      "title_episode st =
         (if convertible ep sec
          then Inr (st\<lparr>tokens := tokens st @ episode_tokens name ep sec, to_tokenise := []\<rparr>)
          else Inl ValueError)"
proof (cases "\<exists>seg. to_tokenise st = [seg]")
  case True
  then obtain seg where seg: "to_tokenise st = [seg]" by blast
  show ?thesis
  proof (cases "\<exists>name ep sec. episode_segment seg name ep sec")
    case True
    then obtain name ep sec where e: "episode_segment seg name ep sec" by blast
    from shape [OF seg e title_episode_segment [OF seg e]] show ?thesis .
  next
    case False
    with title_episode_no_segment [OF seg] unchanged show ?thesis by blast
  qed
next
  case False
  then have "length (to_tokenise st) \<noteq> 1"
    by (cases "to_tokenise st") auto
  from unchanged [OF title_episode_not_single [OF this]] show ?thesis .
qed

lemma tokenise_run_residual:
  "\<exists>st. tag_loop \<lparr>tokens = [], to_tokenise = [], string = s, stdout = []\<rparr>
           (findall TAG_PATTERN s) = Inr st
        \<and> within s (residual st)
        \<and> tokenise_run s = title_episode (residual st)"
proof -
  let ?i = "\<lparr>tokens = [], to_tokenise = [], string = s, stdout = []\<rparr>"
  obtain st where loop: "tag_loop ?i (findall TAG_PATTERN s) = Inr st"
    using tag_loop_total [of ?i s] by auto
  have "within s ?i" by (simp add: within_def)
  from tag_loop_within [OF loop this] have "within s (residual st)"
    by (simp add: within_def residual_def)
  moreover from loop have "tokenise_run s = title_episode (residual st)"
    by (simp add: tokenise_run_def residual_def)
  ultimately show ?thesis using loop by blast
qed

text \<open>
  C1, as the claim states it, fails on \<^verbatim>\<open>x - \<close> followed by 4301 digits \<^verbatim>\<open>1\<close>: the
  string is its own single residual segment, it has the shape of a title and an episode,
  and \<^verbatim>\<open>int\<close> raises \<^verbatim>\<open>ValueError\<close> on the episode, which \<^verbatim>\<open>_tokenise\<close> does not catch.
\<close>

theorem C1_tokenise_counterexample:
  "tokenise (''x - '' @ replicate 4301 (CHR ''1'')) = Inl ValueError"
proof -
  let ?ep = "replicate 4301 (CHR ''1'')"
  have d: "digits ?ep"
    by (rule digits_replicate) (simp_all add: isdigit_chr_def)
  have "''x - '' @ ?ep = ''x'' @ '' - '' @ [] @ ?ep @ [] @ [] @ [] @ []"
    by simp
  moreover have "newline \<notin> set ''x''" by (simp add: newline_def)
  ultimately have e: "episode_segment (''x - '' @ ?ep) ''x'' ?ep None"
    unfolding episode_segment_def using d
    by (intro exI [of _ "[]"]) simp
  have b: "CHR ''['' \<notin> set (''x - '' @ ?ep)" by simp
  have "\<not> convertible ?ep None"
    by (simp add: convertible_def default_max_str_digits_def)
  with tokenise_no_bracket_segment [OF b e] show ?thesis by simp
qed

text \<open>
  C1. \<^verbatim>\<open>_tokenise\<close> returns on every string in which no run of consecutive digits is
  longer than 4300 characters: the result is a pair of a token list and a list of
  residual segments, either of which may be empty. The other places that could raise
  (the indexing and the unpacked split of the word classifiers, the \<^verbatim>\<open>RuntimeError\<close> of
  \<^verbatim>\<open>_tokenise_tag\<close>, which the retry catches, and the unpacking of
  \<^verbatim>\<open>string.split(tag, maxsplit=1)\<close> into two parts) are never reached with a value that
  raises, on any string. So on every string \<^verbatim>\<open>_tokenise\<close> either returns such a pair or
  raises \<^verbatim>\<open>ValueError\<close>, and it raises exactly when the loop over the tags leaves a
  single residual segment that has the shape of a title and an episode and whose
  episode or second episode has more than 4300 digits. Printing is appending to the
  output of the state, which takes every string.
\<close>

theorem C1_tokenise_amended:
  "(short_digit_runs s \<longrightarrow> (\<exists>toks segs. tokenise s = Inr (toks, segs)))
   \<and> ((\<exists>toks segs. tokenise s = Inr (toks, segs)) \<or> tokenise s = Inl ValueError)
   \<and> (tokenise s = Inl ValueError \<longleftrightarrow>
        (\<exists>st seg name ep sec.
           tag_loop \<lparr>tokens = [], to_tokenise = [], string = s, stdout = []\<rparr>
             (findall TAG_PATTERN s) = Inr st
           \<and> to_tokenise (residual st) = [seg] \<and> episode_segment seg name ep sec
           \<and> \<not> convertible ep sec))"
proof -
  let ?i = "\<lparr>tokens = [], to_tokenise = [], string = s, stdout = []\<rparr>"
  obtain st where loop: "tag_loop ?i (findall TAG_PATTERN s) = Inr st"
    and w: "within s (residual st)"
    and run: "tokenise_run s = title_episode (residual st)"
    using tokenise_run_residual by blast
  have tok: "tokenise s = (case title_episode (residual st) of Inl e \<Rightarrow> Inl e
                          | Inr st' \<Rightarrow> Inr (tokens st', to_tokenise st'))"
    by (simp add: tokenise_def run)
  show ?thesis
  proof (cases "residual st" rule: title_episode_cases)
    case unchanged
    then have r: "tokenise s = Inr (tokens (residual st), to_tokenise (residual st))"
      by (simp add: tok)
    have "\<not> (\<exists>st' seg name ep sec. tag_loop ?i (findall TAG_PATTERN s) = Inr st'
           \<and> to_tokenise (residual st') = [seg] \<and> episode_segment seg name ep sec
           \<and> \<not> convertible ep sec)"
    proof
      assume "\<exists>st' seg name ep sec. tag_loop ?i (findall TAG_PATTERN s) = Inr st'
           \<and> to_tokenise (residual st') = [seg] \<and> episode_segment seg name ep sec
           \<and> \<not> convertible ep sec"
      then obtain seg name ep sec where "to_tokenise (residual st) = [seg]"
        "episode_segment seg name ep sec" "\<not> convertible ep sec"
        using loop by auto
      from title_episode_segment [OF this(1,2)] this(3) unchanged show False by simp
    qed
    with r show ?thesis by simp
  next
    case (shape seg name ep sec)
    show ?thesis
    proof (cases "convertible ep sec")
      case True
      with shape(3) have r: "\<exists>toks segs. tokenise s = Inr (toks, segs)"
        by (simp add: tok)
      have "\<not> (\<exists>st' seg name ep sec. tag_loop ?i (findall TAG_PATTERN s) = Inr st'
           \<and> to_tokenise (residual st') = [seg] \<and> episode_segment seg name ep sec
           \<and> \<not> convertible ep sec)"
      proof
        assume "\<exists>st' seg name ep sec. tag_loop ?i (findall TAG_PATTERN s) = Inr st'
           \<and> to_tokenise (residual st') = [seg] \<and> episode_segment seg name ep sec
           \<and> \<not> convertible ep sec"
        then obtain seg' name' ep' sec' where "to_tokenise (residual st) = [seg']"
          "episode_segment seg' name' ep' sec'" "\<not> convertible ep' sec'"
          using loop by auto
        from title_episode_segment [OF this(1,2)] this(3) shape(3) True show False by simp
      qed
      with r show ?thesis by auto
    next
      case False
      with shape(3) have r: "tokenise s = Inl ValueError"
        by (simp add: tok)
      from w shape(1) have "sublist seg s" by (simp add: within_def)
      with convertible_short [OF shape(2)] False have "\<not> short_digit_runs s" by blast
      moreover from loop shape(1,2) False
      have "\<exists>st seg name ep sec. tag_loop ?i (findall TAG_PATTERN s) = Inr st
           \<and> to_tokenise (residual st) = [seg] \<and> episode_segment seg name ep sec
           \<and> \<not> convertible ep sec"
        by blast
      ultimately show ?thesis using r by simp
    qed
  qed
qed

theorem C1_tokenise_amended_witness:
  "short_digit_runs ''[[x] y]] - 12 [] [a''
   \<and> tokenise ''[[x] y]] - 12 [] [a'' = Inr ([], [''y]] - 12 [] [a''])"
proof -
  have r: "short_digit_runs ''[[x] y]] - 12 [] [a''"
    by code_simp
  have "tokenise ''[[x] y]] - 12 [] [a'' = Inr ([], [''y]] - 12 [] [a''])"
    by code_simp
  with C1_tokenise_amended [of "''[[x] y]] - 12 [] [a''"] r show ?thesis by simp
qed

section \<open>The admission pattern\<close>

text \<open>The parts of \<^const>\<open>ANIME_PATTERN\<close> after the optional group.\<close>

definition EXT_END :: rx where
  "EXT_END = Seq (Lit (CHR ''.'')) (Seq (Group ''ext'' (Plus (NotLit (CHR ''.'')))) Eol)"

definition ONE_TAG :: rx where
  "ONE_TAG = Group ''tags'' (seq [Lit (CHR ''[''), Plus Dot, Lit (CHR '']'')])"

definition NAME_TAGS :: rx where
  "NAME_TAGS = Seq (Group ''name'' (LazyStar Dot)) (Seq (Plus ONE_TAG) EXT_END)"

lemma ANIME_PATTERN_eq:
  "ANIME_PATTERN = Seq Bol (Seq (Opt (Group ''group'' TAG_PATTERN)) NAME_TAGS)"
  by (simp add: ANIME_PATTERN_def NAME_TAGS_def ONE_TAG_def EXT_END_def TAG_PATTERN_def)

definition is_ext :: "string \<Rightarrow> bool" where
  "is_ext e = (e \<noteq> [] \<and> CHR ''.'' \<notin> set e)"

lemma ms_ext_group:
  "ms (Group n (Plus (NotLit c))) (p, s, g) =
     map (\<lambda>k. (p + k, drop k s, (n, take k s) # g))
       (rev [Suc 0..<Suc (length (takeWhile (\<lambda>x. x \<noteq> c) s))])"
proof -
  let ?L = "rev [Suc 0..<Suc (length (takeWhile (\<lambda>x. x \<noteq> c) s))]"
  have "capture n (p, s, g) (p + k, drop k s, g) = (p + k, drop k s, (n, take k s) # g)"
    if "k \<in> set ?L" for k
  proof -
    from that length_takeWhile_le [of "\<lambda>x. x \<noteq> c" s] have "k \<le> length s" by auto
    then show ?thesis by (simp add: capture_def)
  qed
  then show ?thesis
    unfolding ms_Group ms_Plus_chr [OF chr_class_simps(2)] map_map comp_def
    by (intro map_cong refl)
qed

lemma concat_map_nonempty: "concat (map f L) \<noteq> [] \<longleftrightarrow> (\<exists>k\<in>set L. f k \<noteq> [])"
  by (induction L) auto

lemma ext_then_end:
  "ms (Seq (Group n (Plus (NotLit (CHR ''.'')))) Eol) (p, e, g) \<noteq> [] \<longleftrightarrow> is_ext e"
proof -
  let ?P = "\<lambda>x. x \<noteq> CHR ''.''"
  let ?m = "length (takeWhile ?P e)"
  have mem: "k \<in> set (rev [Suc 0..<Suc ?m]) \<longleftrightarrow> Suc 0 \<le> k \<and> k \<le> ?m" for k
    by auto
  have ne: "ms Eol (q, r, h) \<noteq> [] \<longleftrightarrow> r = [] \<or> r = [newline]" for q r h
    by (simp add: ms_Eol)
  have "ms (Seq (Group n (Plus (NotLit (CHR ''.'')))) Eol) (p, e, g) \<noteq> [] \<longleftrightarrow>
        (\<exists>k\<in>set (rev [Suc 0..<Suc ?m]). ms Eol (p + k, drop k e, (n, take k e) # g) \<noteq> [])"
    unfolding ms_Seq ms_ext_group map_map comp_def concat_map_nonempty ..
  also have "\<dots> \<longleftrightarrow> (\<exists>k. Suc 0 \<le> k \<and> k \<le> ?m \<and> (drop k e = [] \<or> drop k e = [newline]))"
    unfolding Bex_def mem ne by blast
  also have "\<dots> \<longleftrightarrow> is_ext e"
  proof
    assume "\<exists>k. Suc 0 \<le> k \<and> k \<le> ?m \<and> (drop k e = [] \<or> drop k e = [newline])"
    then obtain k where k: "Suc 0 \<le> k" "k \<le> ?m" and d: "drop k e = [] \<or> drop k e = [newline]"
      by blast
    have "take k (takeWhile ?P e @ dropWhile ?P e) = take k (takeWhile ?P e)"
      using k(2) by (simp del: takeWhile_dropWhile_id)
    then have "take k e = take k (takeWhile ?P e)" by simp
    then have "set (take k e) \<subseteq> set (takeWhile ?P e)"
      using set_take_subset [of k "takeWhile ?P e"] by simp
    then have 1: "CHR ''.'' \<notin> set (take k e)" by (auto dest: set_takeWhileD)
    from d have 2: "CHR ''.'' \<notin> set (drop k e)" by (auto simp: newline_def)
    have "set e = set (take k e) \<union> set (drop k e)"
      using set_append [of "take k e" "drop k e"] by simp
    with 1 2 have "CHR ''.'' \<notin> set e" by simp
    moreover from k have "e \<noteq> []" by auto
    ultimately show "is_ext e" by (simp add: is_ext_def)
  next
    assume "is_ext e"
    then have "e \<noteq> []" and "takeWhile ?P e = e"
      by (auto simp: is_ext_def takeWhile_eq_all_conv)
    then have "Suc 0 \<le> length e \<and> length e \<le> ?m \<and> drop (length e) e = []"
      by (cases e) simp_all
    then show "\<exists>k. Suc 0 \<le> k \<and> k \<le> ?m \<and> (drop k e = [] \<or> drop k e = [newline])"
      by blast
  qed
  finally show ?thesis .
qed

lemma ms_EXT_END:
  "ms EXT_END (p, s, g) \<noteq> [] \<longleftrightarrow> (\<exists>e. s = CHR ''.'' # e \<and> is_ext e)"
proof (cases s)
  case Nil
  then show ?thesis unfolding EXT_END_def ms_Seq [of "Lit _"] by (simp add: ms_Lit)
next
  case (Cons c e)
  show ?thesis
  proof (cases "c = CHR ''.''")
    case True
    with Cons ext_then_end [of "''ext''" "Suc p" e g] show ?thesis
      unfolding EXT_END_def ms_Seq [of "Lit _"] by (simp add: ms_Lit)
  next
    case False
    with Cons show ?thesis unfolding EXT_END_def ms_Seq [of "Lit _"] by (simp add: ms_Lit)
  qed
qed

text \<open>
  One bracket tag of the pattern, \<^verbatim>\<open>\[.+]\<close>: brackets around a non-empty text without
  a newline (the text may itself hold brackets); and one or more of them in a row.
\<close>

definition one_tag :: "string \<Rightarrow> bool" where
  "one_tag t = (\<exists>y. t = CHR ''['' # y @ '']'' \<and> y \<noteq> [] \<and> newline \<notin> set y)"

definition bracket_tags :: "string \<Rightarrow> bool" where
  "bracket_tags T = (\<exists>ts. ts \<noteq> [] \<and> list_all one_tag ts \<and> T = concat ts)"

lemma take_within_takeWhile:
  assumes "k \<le> length (takeWhile P xs)" and "x \<in> set (take k xs)"
  shows "P x"
proof -
  have "take k (takeWhile P xs @ dropWhile P xs) = take k (takeWhile P xs)"
    using assms(1) by (simp del: takeWhile_dropWhile_id)
  then have "take k xs = take k (takeWhile P xs)" by simp
  with assms(2) have "x \<in> set (takeWhile P xs)"
    using set_take_subset [of k "takeWhile P xs"] by auto
  then show ?thesis by (rule set_takeWhileD [THEN conjunct2])
qed

lemma ms_dot_then_close:
  "x \<in> set (ms (Seq (Plus Dot) (Lit (CHR '']''))) (p, r, g)) \<longleftrightarrow>
     (\<exists>k r'. Suc 0 \<le> k \<and> k \<le> length (takeWhile (\<lambda>c. c \<noteq> newline) r)
        \<and> drop k r = CHR '']'' # r' \<and> x = (Suc (p + k), r', g))"
proof -
  let ?m = "length (takeWhile (\<lambda>c. c \<noteq> newline) r)"
  have mem: "k \<in> set (rev [Suc 0..<Suc ?m]) \<longleftrightarrow> Suc 0 \<le> k \<and> k \<le> ?m" for k
    by auto
  have lit: "x \<in> set (ms (Lit (CHR '']'')) (q, u, h)) \<longleftrightarrow> (\<exists>r'. u = CHR '']'' # r' \<and> x = (Suc q, r', h))"
    for q u h
    by (cases u) (auto simp: ms_Lit)
  have "x \<in> set (ms (Seq (Plus Dot) (Lit (CHR '']''))) (p, r, g)) \<longleftrightarrow>
        (\<exists>k\<in>set (rev [Suc 0..<Suc ?m]). x \<in> set (ms (Lit (CHR '']'')) (p + k, drop k r, g)))"
    unfolding ms_Seq ms_Plus_chr [OF chr_class_simps(3)] map_map comp_def set_concat set_map
    by blast
  also have "\<dots> \<longleftrightarrow> (\<exists>k r'. Suc 0 \<le> k \<and> k \<le> ?m \<and> drop k r = CHR '']'' # r'
        \<and> x = (Suc (p + k), r', g))"
    unfolding Bex_def mem lit by blast
  finally show ?thesis .
qed

lemma ONE_TAG_sound:
  assumes "x \<in> set (ms ONE_TAG (p, s, g))"
  shows "\<exists>t. one_tag t \<and> s = t @ fst (snd x)"
proof -
  from assms obtain x0 where x: "x = capture ''tags'' (p, s, g) x0"
    and x0: "x0 \<in> set (ms (Seq (Lit (CHR ''['')) (Seq (Plus Dot) (Lit (CHR '']'')))) (p, s, g))"
    unfolding ONE_TAG_def ms_Group by auto
  from x have rest: "fst (snd x) = fst (snd x0)"
    by (cases x0) (simp add: capture_def)
  from x0 obtain r where s: "s = CHR ''['' # r"
    and x0': "x0 \<in> set (ms (Seq (Plus Dot) (Lit (CHR '']''))) (Suc p, r, g))"
    unfolding ms_Seq [of "Lit _"] by (cases s) (auto simp: ms_Lit split: if_splits)
  from x0' obtain k r' where k: "Suc 0 \<le> k" "k \<le> length (takeWhile (\<lambda>c. c \<noteq> newline) r)"
    and d: "drop k r = CHR '']'' # r'" and x0r: "x0 = (Suc (Suc p + k), r', g)"
    unfolding ms_dot_then_close by blast
  have r: "r = take k r @ CHR '']'' # r'"
    using append_take_drop_id [of k r] unfolding d by simp
  from d have "r \<noteq> []" by auto
  with k(1) have ne: "take k r \<noteq> []" by (cases r) auto
  have nl: "newline \<notin> set (take k r)"
    using take_within_takeWhile [OF k(2)] by blast
  have "s = (CHR ''['' # take k r @ '']'') @ r'"
    unfolding s using r by simp
  moreover from ne nl have "one_tag (CHR ''['' # take k r @ '']'')"
    unfolding one_tag_def by blast
  ultimately show ?thesis using rest x0r by auto
qed

lemma ONE_TAG_complete:
  assumes "one_tag t"
  shows "\<exists>q h. (q, r, h) \<in> set (ms ONE_TAG (p, t @ r, g))"
proof -
  from assms obtain y where t: "t = CHR ''['' # y @ '']''" and ne: "y \<noteq> []"
    and nl: "newline \<notin> set y"
    unfolding one_tag_def by blast
  let ?k = "length y"
  have "takeWhile (\<lambda>c. c \<noteq> newline) (y @ CHR '']'' # r) = y @ takeWhile (\<lambda>c. c \<noteq> newline) (CHR '']'' # r)"
    using nl by (intro takeWhile_append2) auto
  then have le: "?k \<le> length (takeWhile (\<lambda>c. c \<noteq> newline) (y @ CHR '']'' # r))" by simp
  from ne have k1: "Suc 0 \<le> ?k" by (cases y) auto
  have "drop ?k (y @ CHR '']'' # r) = CHR '']'' # r" by simp
  with k1 le have "(Suc (Suc p + ?k), r, g)
      \<in> set (ms (Seq (Plus Dot) (Lit (CHR '']''))) (Suc p, y @ CHR '']'' # r, g))"
    unfolding ms_dot_then_close by blast
  then have "(Suc (Suc p + ?k), r, g)
      \<in> set (ms (Seq (Lit (CHR ''['')) (Seq (Plus Dot) (Lit (CHR '']'')))) (p, t @ r, g))"
    unfolding ms_Seq [of "Lit _"] t by (simp add: ms_Lit)
  then have "capture ''tags'' (p, t @ r, g) (Suc (Suc p + ?k), r, g) \<in> set (ms ONE_TAG (p, t @ r, g))"
    unfolding ONE_TAG_def ms_Group by simp
  then show ?thesis by (auto simp: capture_def)
qed

lemma ms_Plus_mem:
  "x \<in> set (ms (Plus a) st) \<longleftrightarrow>
     (\<exists>st'\<in>set (ms a st). x = st' \<or> (shorter st' st \<and> x \<in> set (ms (Plus a) st')))"
proof -
  have "ms (Plus a) st =
     concat (map (\<lambda>st'. (if shorter st' st then ms (Plus a) st' else []) @ [st']) (ms a st))"
    by (rule ms.simps)
  then have "x \<in> set (ms (Plus a) st) \<longleftrightarrow>
     (\<exists>st'\<in>set (ms a st). x \<in> set ((if shorter st' st then ms (Plus a) st' else []) @ [st']))"
    by (simp only: set_concat set_map UN_iff bex_simps image_iff)
  also have "\<dots> \<longleftrightarrow>
     (\<exists>st'\<in>set (ms a st). x = st' \<or> (shorter st' st \<and> x \<in> set (ms (Plus a) st')))"
    by (intro bex_cong refl) auto
  finally show ?thesis .
qed

lemma one_tag_not_Nil: "one_tag t \<Longrightarrow> t \<noteq> []"
  by (auto simp: one_tag_def)

lemma TAGS_sound:
  "x \<in> set (ms (Plus ONE_TAG) (p, s, g)) \<Longrightarrow> \<exists>T. bracket_tags T \<and> s = T @ fst (snd x)"
proof (induction s arbitrary: p g rule: length_induct)
  case (1 s)
  from "1.prems" obtain st' where st': "st' \<in> set (ms ONE_TAG (p, s, g))"
    and x: "x = st' \<or> (shorter st' (p, s, g) \<and> x \<in> set (ms (Plus ONE_TAG) st'))"
    using ms_Plus_mem [THEN iffD1] by blast
  from ONE_TAG_sound [OF st'] obtain t where t: "one_tag t" and s: "s = t @ fst (snd st')"
    by blast
  from x show ?case
  proof
    assume "x = st'"
    moreover from t have "bracket_tags (concat [t])"
      unfolding bracket_tags_def by (intro exI [of _ "[t]"]) simp
    ultimately show ?thesis using s by auto
  next
    assume a: "shorter st' (p, s, g) \<and> x \<in> set (ms (Plus ONE_TAG) st')"
    obtain q u h where q: "st' = (q, u, h)" by (cases st')
    with a have "length u < length s" and "x \<in> set (ms (Plus ONE_TAG) (q, u, h))"
      by (simp_all add: shorter_def)
    with "1.IH" obtain T where T: "bracket_tags T" and u: "u = T @ fst (snd x)"
      by blast
    from T obtain ts where ts: "ts \<noteq> []" "list_all one_tag ts" "T = concat ts"
      unfolding bracket_tags_def by blast
    with t have "bracket_tags (t @ T)"
      unfolding bracket_tags_def by (intro exI [of _ "t # ts"]) simp
    moreover have "s = (t @ T) @ fst (snd x)"
      using s u q by simp
    ultimately show ?thesis by blast
  qed
qed

lemma TAGS_complete_aux:
  "ts \<noteq> [] \<Longrightarrow> list_all one_tag ts
     \<Longrightarrow> \<exists>q h. (q, r, h) \<in> set (ms (Plus ONE_TAG) (p, concat ts @ r, g))"
proof (induction ts arbitrary: p g)
  case Nil
  then show ?case by simp
next
  case (Cons t ts)
  from Cons.prems have t: "one_tag t" and all: "list_all one_tag ts" by simp_all
  show ?case
  proof (cases "ts = []")
    case True
    from ONE_TAG_complete [OF t, of r p g] obtain q h where
      "(q, r, h) \<in> set (ms ONE_TAG (p, t @ r, g))" by blast
    then have "(q, r, h) \<in> set (ms (Plus ONE_TAG) (p, t @ r, g))"
      by (intro ms_Plus_mem [THEN iffD2]) blast
    with True show ?thesis by auto
  next
    case False
    from ONE_TAG_complete [OF t, of "concat ts @ r" p g] obtain q h where
      m: "(q, concat ts @ r, h) \<in> set (ms ONE_TAG (p, t @ concat ts @ r, g))" by blast
    from one_tag_not_Nil [OF t]
    have sh: "shorter (q, concat ts @ r, h) (p, t @ concat ts @ r, g)"
      by (simp add: shorter_def)
    from Cons.IH [OF False all, of q h] obtain q' h' where
      "(q', r, h') \<in> set (ms (Plus ONE_TAG) (q, concat ts @ r, h))" by blast
    with m sh have "(q', r, h') \<in> set (ms (Plus ONE_TAG) (p, t @ concat ts @ r, g))"
      by (intro ms_Plus_mem [THEN iffD2]) blast
    then show ?thesis by auto
  qed
qed

lemma TAGS_complete:
  "bracket_tags T \<Longrightarrow> \<exists>q h. (q, r, h) \<in> set (ms (Plus ONE_TAG) (p, T @ r, g))"
  unfolding bracket_tags_def using TAGS_complete_aux by blast

definition tags_ext :: "string \<Rightarrow> bool" where
  "tags_ext s = (\<exists>T e. s = T @ ''.'' @ e \<and> bracket_tags T \<and> is_ext e)"

lemma ms_tags_ext:
  "ms (Seq (Plus ONE_TAG) EXT_END) (p, s, g) \<noteq> [] \<longleftrightarrow> tags_ext s"
proof
  assume "ms (Seq (Plus ONE_TAG) EXT_END) (p, s, g) \<noteq> []"
  then obtain x where x: "x \<in> set (ms (Plus ONE_TAG) (p, s, g))" and e: "ms EXT_END x \<noteq> []"
    unfolding ms_Seq concat_map_nonempty by blast
  obtain q u h where q: "x = (q, u, h)" by (cases x)
  from e obtain ex where "u = CHR ''.'' # ex" and "is_ext ex"
    unfolding q ms_EXT_END by blast
  moreover from TAGS_sound [OF x] q obtain T where "bracket_tags T" and "s = T @ u"
    by auto
  ultimately show "tags_ext s" unfolding tags_ext_def by auto
next
  assume "tags_ext s"
  then obtain T e where s: "s = T @ CHR ''.'' # e" and T: "bracket_tags T" and e: "is_ext e"
    unfolding tags_ext_def by auto
  from TAGS_complete [OF T, of "CHR ''.'' # e" p g] obtain q h where
    "(q, CHR ''.'' # e, h) \<in> set (ms (Plus ONE_TAG) (p, s, g))"
    unfolding s by blast
  moreover from e have "ms EXT_END (q, CHR ''.'' # e, h) \<noteq> []"
    unfolding ms_EXT_END by blast
  ultimately show "ms (Seq (Plus ONE_TAG) EXT_END) (p, s, g) \<noteq> []"
    unfolding ms_Seq concat_map_nonempty by blast
qed

text \<open>
  The shape \<^verbatim>\<open>[optional-bracket-group] <name> <one-or-more-bracket-tags> . <extension>\<close>,
  with a condition on the name left open: the leading group is \<^verbatim>\<open>\[[^]]+]\<close>, the
  name has no newline, the extension is not empty and has no full stop.
\<close>

definition bracket_group :: "string \<Rightarrow> bool" where
  "bracket_group b = (\<exists>v. b = CHR ''['' # v @ '']'' \<and> v \<noteq> [] \<and> CHR '']'' \<notin> set v)"

definition anime_shape :: "(string \<Rightarrow> bool) \<Rightarrow> string \<Rightarrow> bool" where
  "anime_shape N s =
     (\<exists>grp name tgs ext.
        s = grp @ name @ tgs @ ''.'' @ ext
        \<and> (grp = [] \<or> bracket_group grp)
        \<and> N name \<and> newline \<notin> set name
        \<and> bracket_tags tgs
        \<and> is_ext ext)"

lemma ms_lazy_name_group:
  "ms (Group n (LazyStar Dot)) (p, s, g) =
     map (\<lambda>k. (p + k, drop k s, (n, take k s) # g))
       [0..<Suc (length (takeWhile (\<lambda>x. x \<noteq> newline) s))]"
proof -
  let ?L = "[0..<Suc (length (takeWhile (\<lambda>x. x \<noteq> newline) s))]"
  have "capture n (p, s, g) (p + k, drop k s, g) = (p + k, drop k s, (n, take k s) # g)"
    if "k \<in> set ?L" for k
  proof -
    from that length_takeWhile_le [of "\<lambda>x. x \<noteq> newline" s] have "k \<le> length s" by auto
    then show ?thesis by (simp add: capture_def)
  qed
  then show ?thesis
    unfolding ms_Group ms_LazyStar_chr [OF chr_class_simps(3)] map_map comp_def
    by (intro map_cong refl)
qed

definition name_tags :: "string \<Rightarrow> bool" where
  "name_tags s = (\<exists>name r. s = name @ r \<and> newline \<notin> set name \<and> tags_ext r)"

lemma ms_NAME_TAGS: "ms NAME_TAGS (p, s, g) \<noteq> [] \<longleftrightarrow> name_tags s"
proof -
  let ?P = "\<lambda>x. x \<noteq> newline"
  let ?m = "length (takeWhile ?P s)"
  have mem: "k \<in> set [0..<Suc ?m] \<longleftrightarrow> k \<le> ?m" for k by auto
  have "ms NAME_TAGS (p, s, g) \<noteq> [] \<longleftrightarrow>
        (\<exists>k\<in>set [0..<Suc ?m].
           ms (Seq (Plus ONE_TAG) EXT_END) (p + k, drop k s, (''name'', take k s) # g) \<noteq> [])"
    unfolding NAME_TAGS_def ms_Seq [of "Group _ _"] ms_lazy_name_group map_map comp_def
      concat_map_nonempty ..
  also have "\<dots> \<longleftrightarrow> (\<exists>k. k \<le> ?m \<and> tags_ext (drop k s))"
    unfolding Bex_def mem ms_tags_ext ..
  also have "\<dots> \<longleftrightarrow> name_tags s"
  proof
    assume "\<exists>k. k \<le> ?m \<and> tags_ext (drop k s)"
    then obtain k where k: "k \<le> ?m" and t: "tags_ext (drop k s)" by blast
    have "newline \<notin> set (take k s)"
      using take_within_takeWhile [OF k] by blast
    moreover have "s = take k s @ drop k s" by simp
    ultimately show "name_tags s" using t unfolding name_tags_def by blast
  next
    assume "name_tags s"
    then obtain name r where s: "s = name @ r" and nl: "newline \<notin> set name" and t: "tags_ext r"
      unfolding name_tags_def by blast
    have "takeWhile ?P (name @ r) = name @ takeWhile ?P r"
      using nl by (intro takeWhile_append2) auto
    then have "length name \<le> ?m" unfolding s by simp
    moreover have "drop (length name) s = r" unfolding s by simp
    ultimately show "\<exists>k. k \<le> ?m \<and> tags_ext (drop k s)" using t by blast
  qed
  finally show ?thesis .
qed

lemma match_tag_iff:
  "match_tag s = Some (t, rest) \<longleftrightarrow> s = t @ rest \<and> bracket_group t"
proof
  assume "match_tag s = Some (t, rest)"
  from match_tag_Some(1,3) [OF this] show "s = t @ rest \<and> bracket_group t"
    unfolding bracket_group_def by blast
next
  assume "s = t @ rest \<and> bracket_group t"
  then obtain v where s: "s = t @ rest" and t: "t = CHR ''['' # v @ '']''" "v \<noteq> []"
    "CHR '']'' \<notin> set v"
    unfolding bracket_group_def by blast
  from tag_prefix_match [OF t, of s] s show "match_tag s = Some (t, rest)"
    by simp
qed

lemma re_match_ANIME: "re_match ANIME_PATTERN s \<noteq> None \<longleftrightarrow> anime_shape (\<lambda>name. True) s"
proof -
  have "re_match ANIME_PATTERN s \<noteq> None \<longleftrightarrow> ms ANIME_PATTERN (0, s, []) \<noteq> []"
    by (auto simp: re_match_def split: list.splits)
  also have "\<dots> \<longleftrightarrow> (\<exists>x\<in>set (ms (Group ''group'' TAG_PATTERN) (0, s, [])). ms NAME_TAGS x \<noteq> [])
                      \<or> ms NAME_TAGS (0, s, []) \<noteq> []"
    unfolding ANIME_PATTERN_eq ms_Bol_Seq ms_Opt_Seq by (simp add: concat_map_nonempty)
  also have "(\<exists>x\<in>set (ms (Group ''group'' TAG_PATTERN) (0, s, [])). ms NAME_TAGS x \<noteq> []) \<longleftrightarrow>
             (\<exists>t rest. match_tag s = Some (t, rest) \<and> name_tags rest)"
    unfolding ms_Group ms_TAG_PATTERN
    by (cases "match_tag s") (auto simp: capture_def ms_NAME_TAGS)
  also have "(\<exists>t rest. match_tag s = Some (t, rest) \<and> name_tags rest)
              \<or> ms NAME_TAGS (0, s, []) \<noteq> []
             \<longleftrightarrow> anime_shape (\<lambda>name. True) s"
  proof
    assume "(\<exists>t rest. match_tag s = Some (t, rest) \<and> name_tags rest)
              \<or> ms NAME_TAGS (0, s, []) \<noteq> []"
    then consider t rest where "s = t @ rest" "bracket_group t" "name_tags rest"
      | "name_tags s"
      unfolding match_tag_iff ms_NAME_TAGS by blast
    then show "anime_shape (\<lambda>name. True) s"
    proof cases
      case 1
      from 1(3) obtain name T e where "rest = name @ T @ ''.'' @ e" "newline \<notin> set name"
        "bracket_tags T" "is_ext e"
        unfolding name_tags_def tags_ext_def by blast
      with 1(1,2) show ?thesis unfolding anime_shape_def by blast
    next
      case 2
      then obtain name T e where "s = [] @ name @ T @ ''.'' @ e" "newline \<notin> set name"
        "bracket_tags T" "is_ext e"
        unfolding name_tags_def tags_ext_def by auto
      then show ?thesis unfolding anime_shape_def by blast
    qed
  next
    assume "anime_shape (\<lambda>name. True) s"
    then obtain grp name T e where s: "s = grp @ name @ T @ ''.'' @ e"
      and grp: "grp = [] \<or> bracket_group grp" and nl: "newline \<notin> set name"
      and T: "bracket_tags T" and e: "is_ext e"
      unfolding anime_shape_def by blast
    from nl T e have nt: "name_tags (name @ T @ ''.'' @ e)"
      unfolding name_tags_def tags_ext_def by blast
    from grp show "(\<exists>t rest. match_tag s = Some (t, rest) \<and> name_tags rest)
              \<or> ms NAME_TAGS (0, s, []) \<noteq> []"
    proof
      assume "grp = []"
      with s nt show ?thesis unfolding ms_NAME_TAGS by simp
    next
      assume "bracket_group grp"
      with s nt show ?thesis unfolding match_tag_iff by blast
    qed
  qed
  finally show ?thesis .
qed

lemma bracket_tags_has_bracket: "bracket_tags T \<Longrightarrow> CHR ''['' \<in> set T"
proof -
  assume "bracket_tags T"
  then obtain ts where ts: "ts \<noteq> []" "list_all one_tag ts" "T = concat ts"
    unfolding bracket_tags_def by blast
  then obtain t ts' where "ts = t # ts'" and "one_tag t" by (cases ts) auto
  with ts(3) show ?thesis by (auto simp: one_tag_def)
qed

lemma set_after_dropWhile: "\<not> P c \<Longrightarrow> set b \<subseteq> set (dropWhile P (a @ c # b))"
  by (auto simp: dropWhile_append)

lemma spaced_name_shape:
  assumes "anime_shape (\<lambda>name. CHR '' '' \<in> set name) s"
  shows "CHR ''['' \<in> set (dropWhile (\<lambda>c. c \<noteq> CHR '' '') s)"
proof -
  from assms obtain grp name T e where s: "s = grp @ name @ T @ ''.'' @ e"
    and sp: "CHR '' '' \<in> set name" and T: "bracket_tags T"
    unfolding anime_shape_def by blast
  from sp obtain n1 n2 where name: "name = n1 @ CHR '' '' # n2"
    by (auto dest: split_list)
  have "s = (grp @ n1) @ CHR '' '' # (n2 @ T @ ''.'' @ e)"
    unfolding s name by simp
  moreover have "CHR ''['' \<in> set (n2 @ T @ ''.'' @ e)"
    using bracket_tags_has_bracket [OF T] by simp
  ultimately show ?thesis
    using set_after_dropWhile [of "\<lambda>c. c \<noteq> CHR '' ''" "CHR '' ''" "n2 @ T @ ''.'' @ e" "grp @ n1"]
    by auto
qed

text \<open>
  C3, as stated, fails: \<^verbatim>\<open>[G]Name[Dual Audio].mkv\<close> is accepted although its name,
  \<^verbatim>\<open>Name\<close>, has no space; the space that \<^verbatim>\<open>is_anime\<close> finds is inside a tag. The
  string is of the shape with any name, and of no shape whose name has a space.
\<close>

theorem C3_is_anime_counterexample:
  "is_anime ''[G]Name[Dual Audio].mkv''
   \<and> re_match ANIME_PATTERN ''[G]Name[Dual Audio].mkv'' =
       Some [(''ext'', ''mkv''), (''tags'', ''[Dual Audio]''), (''name'', ''Name''),
             (''group'', ''[G]'')]
   \<and> CHR '' '' \<notin> set ''Name''
   \<and> \<not> anime_shape (\<lambda>name. CHR '' '' \<in> set name) ''[G]Name[Dual Audio].mkv''"
proof -
  have "is_anime ''[G]Name[Dual Audio].mkv''"
    by code_simp
  moreover have "re_match ANIME_PATTERN ''[G]Name[Dual Audio].mkv'' =
       Some [(''ext'', ''mkv''), (''tags'', ''[Dual Audio]''), (''name'', ''Name''),
             (''group'', ''[G]'')]"
    by code_simp
  moreover have "CHR ''['' \<notin> set (dropWhile (\<lambda>c. c \<noteq> CHR '' '') ''[G]Name[Dual Audio].mkv'')"
    by simp
  then have "\<not> anime_shape (\<lambda>name. CHR '' '' \<in> set name) ''[G]Name[Dual Audio].mkv''"
    using spaced_name_shape by blast
  ultimately show ?thesis by simp
qed

text \<open>
  C3, amended. \<^verbatim>\<open>is_anime\<close> holds exactly for the strings of the shape
  \<^verbatim>\<open>[optional-bracket-group] <name> <one-or-more-bracket-tags> . <extension>\<close>, whatever
  the name (it may be empty), that have a space somewhere; a string without any space is
  rejected even when it has the shape.
\<close>

theorem C3_is_anime_amended:
  "(is_anime s \<longleftrightarrow> anime_shape (\<lambda>name. True) s \<and> CHR '' '' \<in> set s)
   \<and> (CHR '' '' \<notin> set s \<longrightarrow> \<not> is_anime s)"
  unfolding is_anime_def re_match_ANIME by blast

theorem C3_is_anime_amended_witness:
  "is_anime ''[Group] Show Name [1080p].mkv''
   \<and> anime_shape (\<lambda>name. True) ''[Group] Show Name [1080p].mkv''
   \<and> CHR '' '' \<notin> set ''[Group]ShowName[1080p].mkv''
   \<and> \<not> is_anime ''[Group]ShowName[1080p].mkv''
   \<and> \<not> is_anime ''ShowName.mkv''"
proof -
  have a: "is_anime ''[Group] Show Name [1080p].mkv''" by code_simp
  have b: "CHR '' '' \<notin> set ''[Group]ShowName[1080p].mkv''" by simp
  have c: "\<not> is_anime ''ShowName.mkv''" by code_simp
  from C3_is_anime_amended [of "''[Group] Show Name [1080p].mkv''"] a
    C3_is_anime_amended [of "''[Group]ShowName[1080p].mkv''"] b c
  show ?thesis by blast
qed

end
